theory Spec2Isabelle
  imports Main "HOL-Library.Char_ord" "HOL-Library.List_Lexorder" "HOL-Library.Product_Lexorder"
begin


section \<open>Text: Python strings and their helpers\<close>

text \<open>
  A Python \<open>str\<close> is a sequence of code points. The model uses \<open>string\<close>, one \<open>char\<close>
  per code point, and therefore covers texts whose code points are below 256. On that
  range the character classes below are those of Python 3: \<open>str.isspace\<close>, the
  \<open>\w\<close>, \<open>\d\<close> and \<open>\s\<close> of the \<open>re\<close> module on \<open>str\<close> patterns, and simple case
  mapping. Strings are ordered as Python orders them: lexicographically by code point.
\<close>

abbreviation NL :: char where "NL \<equiv> CHR 0x0A"

definition code :: "char \<Rightarrow> nat" where
  "code c = of_char c"

definition is_digit :: "char \<Rightarrow> bool" where
  "is_digit c = (48 \<le> code c \<and> code c \<le> 57)"

definition is_ascii_upper :: "char \<Rightarrow> bool" where
  "is_ascii_upper c = (65 \<le> code c \<and> code c \<le> 90)"

definition is_ascii_lower :: "char \<Rightarrow> bool" where
  "is_ascii_lower c = (97 \<le> code c \<and> code c \<le> 122)"

definition is_upper :: "char \<Rightarrow> bool" where
  \<comment> \<open>upper-case letters below 256: A-Z and the Latin-1 capitals except the multiplication sign\<close>
  "is_upper c = (is_ascii_upper c \<or> (192 \<le> code c \<and> code c \<le> 222 \<and> code c \<noteq> 215))"

definition is_lower :: "char \<Rightarrow> bool" where
  \<comment> \<open>letters below 256 that \<open>str.upper\<close> maps to another code point below 256\<close>
  "is_lower c = (is_ascii_lower c \<or> (224 \<le> code c \<and> code c \<le> 254 \<and> code c \<noteq> 247))"

definition is_cased :: "char \<Rightarrow> bool" where
  \<comment> \<open>cased code points below 256, as \<open>str.title\<close> sees them\<close>
  "is_cased c = (is_upper c \<or> is_lower c \<or> code c \<in> {170, 181, 186, 223, 255})"

definition is_space :: "char \<Rightarrow> bool" where
  \<comment> \<open>\<open>str.isspace\<close> and \<open>\s\<close>\<close>
  "is_space c = ((9 \<le> code c \<and> code c \<le> 13) \<or> (28 \<le> code c \<and> code c \<le> 32)
                 \<or> code c = 133 \<or> code c = 160)"

definition is_word :: "char \<Rightarrow> bool" where
  \<comment> \<open>\<open>\w\<close>: alphanumeric in the sense of \<open>str.isalnum\<close>, or the underscore\<close>
  "is_word c = (is_digit c \<or> is_ascii_upper c \<or> is_ascii_lower c \<or> code c = 95
                \<or> code c \<in> {170, 178, 179, 181, 185, 186, 188, 189, 190}
                \<or> (192 \<le> code c \<and> code c \<noteq> 215 \<and> code c \<noteq> 247))"

definition lower_char :: "char \<Rightarrow> char" where
  "lower_char c = (if is_upper c then char_of (code c + 32) else c)"

definition upper_char :: "char \<Rightarrow> char" where
  \<comment> \<open>\<open>str.upper\<close> of one code point. Python maps code points 181, 223 and 255 outside
      the range of the model; they are left unchanged here, and no value that the
      extractors upper-case can contain them, the patterns of those values being ASCII.\<close>
  "upper_char c = (if is_lower c then char_of (code c - 32) else c)"

definition lower :: "string \<Rightarrow> string" where
  "lower s = map lower_char s"

definition upper :: "string \<Rightarrow> string" where
  "upper s = map upper_char s"

fun title_from :: "bool \<Rightarrow> string \<Rightarrow> string" where
  "title_from prev_cased [] = []"
| "title_from prev_cased (x # xs) =
     (if prev_cased then lower_char x else upper_char x) # title_from (is_cased x) xs"

definition title :: "string \<Rightarrow> string" where
  \<comment> \<open>\<open>str.title\<close>: a cased character is upper-cased after an uncased one, lower-cased otherwise\<close>
  "title s = title_from False s"

definition strip :: "string \<Rightarrow> string" where
  "strip s = rev (dropWhile is_space (rev (dropWhile is_space s)))"

definition slice :: "string \<Rightarrow> nat \<Rightarrow> nat \<Rightarrow> string" where
  \<comment> \<open>\<open>s[i:j]\<close> for \<open>0 \<le> i\<close> and \<open>0 \<le> j\<close>; empty when \<open>j \<le> i\<close>\<close>
  "slice s i j = take (j - i) (drop i s)"

fun split_nl :: "string \<Rightarrow> string list" where
  \<comment> \<open>\<open>s.split('\n')\<close>: never empty, one more piece than there are newlines\<close>
  "split_nl [] = [[]]"
| "split_nl (x # xs) =
     (if x = NL then [] # split_nl xs
      else (case split_nl xs of [] \<Rightarrow> [[x]] | l # ls \<Rightarrow> (x # l) # ls))"

fun split_ws_from :: "bool \<Rightarrow> string \<Rightarrow> nat" where
  \<comment> \<open>the number of words that start in the text, given whether a word is open\<close>
  "split_ws_from in_word [] = 0"
| "split_ws_from in_word (x # xs) =
     (if is_space x then split_ws_from False xs
      else (if in_word then 0 else 1) + split_ws_from True xs)"

definition word_count_of :: "string \<Rightarrow> nat" where
  \<comment> \<open>\<open>len(s.split())\<close>\<close>
  "word_count_of s = split_ws_from False s"

fun is_prefix_of :: "string \<Rightarrow> string \<Rightarrow> bool" where
  "is_prefix_of [] ys = True"
| "is_prefix_of (x # xs) [] = False"
| "is_prefix_of (x # xs) (y # ys) = (x = y \<and> is_prefix_of xs ys)"

fun contains :: "string \<Rightarrow> string \<Rightarrow> bool" where
  \<comment> \<open>\<open>kw in s\<close>\<close>
  "contains [] kw = (kw = [])"
| "contains (x # xs) kw = (is_prefix_of kw (x # xs) \<or> contains xs kw)"

section \<open>Regular expressions: the part of Python's \<open>re\<close> the extractors use\<close>

text \<open>
  A backtracking matcher with the priorities of \<open>re\<close>: alternatives left to right,
  repetition greedy. A character set is a list of items; a pattern is a tree. The
  counted repetitions of the patterns are written with \<open>between\<close>, \<open>at_least\<close>, \<open>opt\<close>
  and \<open>plus\<close> below, which expand them into sequence, alternative and star.
\<close>

datatype citem = CC char | CR char char | CD | CS

datatype rx =
    Lit char
  | CSet "citem list"
  | NSet "citem list"
  | Dot
  | Eps
  | Seq rx rx
  | Alt rx rx
  | Star rx
  | Grp nat rx
  | WordB
  | Bol
  | Eol

record flags =
  ignorecase :: bool
  multiline :: bool

type_synonym caps = "nat \<Rightarrow> string option"

type_synonym 'r cont = "string \<Rightarrow> char option \<Rightarrow> string \<Rightarrow> caps \<Rightarrow> 'r option"

fun item_has :: "citem \<Rightarrow> char \<Rightarrow> bool" where
  "item_has (CC a) x = (x = a)"
| "item_has (CR a b) x = (code a \<le> code x \<and> code x \<le> code b)"
| "item_has CD x = is_digit x"
| "item_has CS x = is_space x"

definition set_has :: "flags \<Rightarrow> citem list \<Rightarrow> char \<Rightarrow> bool" where
  \<comment> \<open>under IGNORECASE a character is in a set when one of its case variants is\<close>
  "set_has fl items x =
     (list_ex (\<lambda>i. item_has i x) items
      \<or> (ignorecase fl \<and> (list_ex (\<lambda>i. item_has i (lower_char x)) items
                           \<or> list_ex (\<lambda>i. item_has i (upper_char x)) items)))"

definition lit_eq :: "flags \<Rightarrow> char \<Rightarrow> char \<Rightarrow> bool" where
  "lit_eq fl a x = (x = a \<or> (ignorecase fl \<and> lower_char x = lower_char a))"

definition word_opt :: "char option \<Rightarrow> bool" where
  "word_opt p = (case p of None \<Rightarrow> False | Some x \<Rightarrow> is_word x)"

definition next_char :: "string \<Rightarrow> char option" where
  "next_char s = (case s of [] \<Rightarrow> None | x # _ \<Rightarrow> Some x)"

definition at_bol :: "flags \<Rightarrow> char option \<Rightarrow> bool" where
  "at_bol fl prev = (prev = None \<or> (multiline fl \<and> prev = Some NL))"

definition at_eol :: "flags \<Rightarrow> string \<Rightarrow> bool" where
  "at_eol fl rest = (rest = [] \<or> (if multiline fl then next_char rest = Some NL else rest = [NL]))"

fun step :: "(char \<Rightarrow> bool) \<Rightarrow> string \<Rightarrow> caps \<Rightarrow> 'r cont \<Rightarrow> 'r option" where
  "step p [] c k = None"
| "step p (x # xs) c k = (if p x then k [x] (Some x) xs c else None)"

fun star_loop ::
  "(char option \<Rightarrow> string \<Rightarrow> caps \<Rightarrow> 'r cont \<Rightarrow> 'r option) \<Rightarrow> nat \<Rightarrow>
   char option \<Rightarrow> string \<Rightarrow> caps \<Rightarrow> 'r cont \<Rightarrow> 'r option" where
  \<comment> \<open>greedy: one more round of the body if the rest of the pattern then matches, else
      none. A round that consumes nothing is refused, so the number of rounds is at most
      the number of characters left, which is the bound the caller passes.\<close>
  "star_loop f 0 prev rest c k = k [] prev rest c"
| "star_loop f (Suc n) prev rest c k =
     (case f prev rest c
             (\<lambda>t1 prev1 rest1 c1.
                if t1 = [] then None
                else star_loop f n prev1 rest1 c1 (\<lambda>t2. k (t1 @ t2))) of
        Some r \<Rightarrow> Some r
      | None \<Rightarrow> k [] prev rest c)"

primrec m :: "flags \<Rightarrow> rx \<Rightarrow> char option \<Rightarrow> string \<Rightarrow> caps \<Rightarrow> 'r cont \<Rightarrow> 'r option" where
  "m fl (Lit a) = (\<lambda>prev rest c k. step (lit_eq fl a) rest c k)"
| "m fl (CSet items) = (\<lambda>prev rest c k. step (set_has fl items) rest c k)"
| "m fl (NSet items) = (\<lambda>prev rest c k. step (\<lambda>x. \<not> set_has fl items x) rest c k)"
| "m fl Dot = (\<lambda>prev rest c k. step (\<lambda>x. x \<noteq> NL) rest c k)"
| "m fl Eps = (\<lambda>prev rest c k. k [] prev rest c)"
| "m fl (Seq a b) =
     (\<lambda>prev rest c k.
        m fl a prev rest c (\<lambda>t1 prev1 rest1 c1. m fl b prev1 rest1 c1 (\<lambda>t2. k (t1 @ t2))))"
| "m fl (Alt a b) =
     (\<lambda>prev rest c k.
        case m fl a prev rest c k of Some r \<Rightarrow> Some r | None \<Rightarrow> m fl b prev rest c k)"
| "m fl (Star a) = (\<lambda>prev rest c k. star_loop (m fl a) (length rest) prev rest c k)"
| "m fl (Grp n a) =
     (\<lambda>prev rest c k. m fl a prev rest c (\<lambda>t prev1 rest1 c1. k t prev1 rest1 (c1(n \<mapsto> t))))"
| "m fl WordB =
     (\<lambda>prev rest c k.
        if word_opt prev \<noteq> word_opt (next_char rest) then k [] prev rest c else None)"
| "m fl Bol = (\<lambda>prev rest c k. if at_bol fl prev then k [] prev rest c else None)"
| "m fl Eol = (\<lambda>prev rest c k. if at_eol fl rest then k [] prev rest c else None)"

text \<open>The counted forms, by expansion.\<close>

definition opt :: "rx \<Rightarrow> rx" where
  "opt r = Alt r Eps"

definition plus :: "rx \<Rightarrow> rx" where
  "plus r = Seq r (Star r)"

fun exactly :: "nat \<Rightarrow> rx \<Rightarrow> rx" where
  "exactly 0 r = Eps"
| "exactly (Suc 0) r = r"
| "exactly (Suc n) r = Seq r (exactly n r)"

fun upto :: "nat \<Rightarrow> rx \<Rightarrow> rx" where
  \<comment> \<open>\<open>r{0,n}\<close>\<close>
  "upto 0 r = Eps"
| "upto (Suc n) r = opt (Seq r (upto n r))"

definition between :: "nat \<Rightarrow> nat \<Rightarrow> rx \<Rightarrow> rx" where
  \<comment> \<open>\<open>r{lo,hi}\<close>\<close>
  "between lo hi r = (if lo = 0 then upto hi r else Seq (exactly lo r) (upto (hi - lo) r))"

definition at_least :: "nat \<Rightarrow> rx \<Rightarrow> rx" where
  \<comment> \<open>\<open>r{lo,}\<close>\<close>
  "at_least lo r = (if lo = 0 then Star r else Seq (exactly lo r) (Star r))"

fun str :: "string \<Rightarrow> rx" where
  "str [] = Eps"
| "str [x] = Lit x"
| "str (x # xs) = Seq (Lit x) (str xs)"

fun seqs :: "rx list \<Rightarrow> rx" where
  "seqs [] = Eps"
| "seqs [r] = r"
| "seqs (r # rs) = Seq r (seqs rs)"

fun alts :: "rx list \<Rightarrow> rx" where
  "alts [] = Eps"
| "alts [r] = r"
| "alts (r # rs) = Alt r (alts rs)"

text \<open>Match objects, and the entry points \<open>re.match\<close>, \<open>re.finditer\<close>, \<open>re.search\<close>.\<close>

record rmatch =
  m_start :: nat
  m_text :: string
  m_groups :: caps

definition m_end :: "rmatch \<Rightarrow> nat" where
  "m_end mt = m_start mt + length (m_text mt)"

definition match_here :: "flags \<Rightarrow> rx \<Rightarrow> char option \<Rightarrow> string \<Rightarrow> (string \<times> caps) option" where
  "match_here fl r prev rest = m fl r prev rest (\<lambda>n. None) (\<lambda>t prev1 rest1 c. Some (t, c))"

fun scan ::
  "(char option \<Rightarrow> string \<Rightarrow> (string \<times> caps) option) \<Rightarrow> nat \<Rightarrow> nat \<Rightarrow> char option \<Rightarrow>
   string \<Rightarrow> rmatch list" where
  \<comment> \<open>left to right, non-overlapping: after a match the scan resumes at its end;
      \<open>skip\<close> counts the characters still inside the last match\<close>
  "scan f skip pos prev [] =
     (if skip = 0 then
        (case f prev [] of
           None \<Rightarrow> []
         | Some (t, c) \<Rightarrow> [\<lparr>m_start = pos, m_text = t, m_groups = c\<rparr>])
      else [])"
| "scan f skip pos prev (x # xs) =
     (if 0 < skip then scan f (skip - 1) (pos + 1) (Some x) xs
      else
        (case f prev (x # xs) of
           None \<Rightarrow> scan f 0 (pos + 1) (Some x) xs
         | Some (t, c) \<Rightarrow>
             \<lparr>m_start = pos, m_text = t, m_groups = c\<rparr>
               # scan f (length t - 1) (pos + 1) (Some x) xs))"

definition finditer :: "flags \<Rightarrow> rx \<Rightarrow> string \<Rightarrow> rmatch list" where
  "finditer fl r s = scan (match_here fl r) 0 0 None s"

definition re_match :: "flags \<Rightarrow> rx \<Rightarrow> string \<Rightarrow> rmatch option" where
  "re_match fl r s =
     (case match_here fl r None s of
        None \<Rightarrow> None
      | Some (t, c) \<Rightarrow> Some \<lparr>m_start = 0, m_text = t, m_groups = c\<rparr>)"

definition re_search :: "flags \<Rightarrow> rx \<Rightarrow> string \<Rightarrow> rmatch option" where
  "re_search fl r s = (case finditer fl r s of [] \<Rightarrow> None | mt # _ \<Rightarrow> Some mt)"


section \<open>Python dictionaries and the input directory\<close>

text \<open>
  A \<open>dict\<close> keeps its keys in the order of their first insertion, and \<open>json.dumps\<close>
  writes them in that order: a dictionary is an association list with distinct keys.
  \<open>dict_update f z d k\<close> is \<open>d[k] = f(d[k])\<close> on a \<open>defaultdict\<close> whose default is \<open>z\<close>.
  A Python \<open>set\<close> is a list without duplicates; the scripts only sort sets or take
  their size, so the order inside is never observed.
\<close>

fun dict_update :: "('v \<Rightarrow> 'v) \<Rightarrow> 'v \<Rightarrow> ('k \<times> 'v) list \<Rightarrow> 'k \<Rightarrow> ('k \<times> 'v) list" where
  "dict_update f z [] k = [(k, f z)]"
| "dict_update f z ((k', v) # d) k =
     (if k' = k then (k', f v) # d else (k', v) # dict_update f z d k)"

definition set_add :: "'a list \<Rightarrow> 'a \<Rightarrow> 'a list" where
  "set_add s x = (if x \<in> set s then s else s @ [x])"

definition py_format :: "string option \<Rightarrow> string" where
  \<comment> \<open>how an f-string prints a group that may be \<open>None\<close>\<close>
  "py_format v = (case v of None \<Rightarrow> ''None'' | Some s \<Rightarrow> s)"

definition truthy :: "string option \<Rightarrow> bool" where
  "truthy v = (case v of None \<Rightarrow> False | Some s \<Rightarrow> s \<noteq> [])"

datatype error = AttributeError

text \<open>
  A file of a backend's \<open>markdown\<close> directory: its name, its path as a string, and its
  content, \<open>None\<close> when reading it fails. The directory tree maps a backend to the
  \<open>*.md\<close> files of its directory, \<open>None\<close> when the directory does not exist.
\<close>

record md_file =
  f_name :: string
  f_path :: string
  f_content :: "string option"

type_synonym tree = "string \<Rightarrow> md_file list option"

fun concat_results :: "('a \<Rightarrow> error + 'b list) \<Rightarrow> 'a list \<Rightarrow> error + 'b list" where
  \<comment> \<open>a loop that extends a list with the results of its body; an exception ends it\<close>
  "concat_results f [] = Inr []"
| "concat_results f (x # xs) =
     (case f x of
        Inl e \<Rightarrow> Inl e
      | Inr ys \<Rightarrow> (case concat_results f xs of Inl e \<Rightarrow> Inl e | Inr zs \<Rightarrow> Inr (ys @ zs)))"

definition enumerate1 :: "'a list \<Rightarrow> (nat \<times> 'a) list" where
  \<comment> \<open>\<open>enumerate(xs, 1)\<close>\<close>
  "enumerate1 xs = zip [1 ..< Suc (length xs)] xs"

definition TOOLS :: "string list" where
  "TOOLS = [''pandoc'', ''markitdown'', ''docling'']"

definition sorted_files :: "md_file list \<Rightarrow> md_file list" where
  \<comment> \<open>\<open>sorted(md_dir.glob('*.md'))\<close>\<close>
  "sorted_files fs = sort_key f_path fs"


section \<open>extract-controls.py\<close>

definition IC :: flags where
  "IC = \<lparr>ignorecase = True, multiline = False\<rparr>"

definition NOFLAGS :: flags where
  "NOFLAGS = \<lparr>ignorecase = False, multiline = False\<rparr>"

definition MLINE :: flags where
  "MLINE = \<lparr>ignorecase = False, multiline = True\<rparr>"

definition CONTROL_PATTERN :: rx where
  \<comment> \<open>\<open>\b([A-Z]{2})-(\d{1,2})(?:\((\d+)\))?(?:\.([a-z]))?\<close>, compiled with IGNORECASE\<close>
  "CONTROL_PATTERN =
     seqs [WordB,
           Grp 1 (exactly 2 (CSet [CR CHR ''A'' CHR ''Z''])),
           Lit CHR ''-'',
           Grp 2 (between 1 2 (CSet [CD])),
           opt (seqs [Lit CHR ''('', Grp 3 (plus (CSet [CD])), Lit CHR '')'']),
           opt (seqs [Lit CHR ''.'', Grp 4 (CSet [CR CHR ''a'' CHR ''z''])])]"

definition CONTROL_FAMILIES :: "(string \<times> string) list" where
  "CONTROL_FAMILIES =
     [(''AC'', ''Access Control''),
      (''AT'', ''Awareness and Training''),
      (''AU'', ''Audit and Accountability''),
      (''CA'', ''Assessment, Authorization, and Monitoring''),
      (''CM'', ''Configuration Management''),
      (''CP'', ''Contingency Planning''),
      (''IA'', ''Identification and Authentication''),
      (''IR'', ''Incident Response''),
      (''MA'', ''Maintenance''),
      (''MP'', ''Media Protection''),
      (''PE'', ''Physical and Environmental Protection''),
      (''PL'', ''Planning''),
      (''PM'', ''Program Management''),
      (''PS'', ''Personnel Security''),
      (''PT'', ''PII Processing and Transparency''),
      (''RA'', ''Risk Assessment''),
      (''SA'', ''System and Services Acquisition''),
      (''SC'', ''System and Communications Protection''),
      (''SI'', ''System and Information Integrity''),
      (''SR'', ''Supply Chain Risk Management'')]"

record control_ref =
  control_id :: string
  control_family :: string
  control_family_name :: string
  base_control :: string
  has_enhancement :: bool
  enhancement_number :: "string option"
  source_document :: string
  source_path :: string
  conversion_tool :: string
  loc_line :: nat
  loc_column :: nat
  context_snippet :: string

definition control_of_match ::
  "md_file \<Rightarrow> string \<Rightarrow> nat \<Rightarrow> string \<Rightarrow> rmatch \<Rightarrow> error + control_ref" where
  \<comment> \<open>the body of the inner loop; \<open>match.group(1).upper()\<close> raises on a group that is
      \<open>None\<close>, and so does \<open>part.lower()\<close>, which is only reached for a non-empty part\<close>
  "control_of_match fp tool line_num ln mt =
     (case m_groups mt 1 of
        None \<Rightarrow> Inl AttributeError
      | Some g1 \<Rightarrow>
          (let family = upper g1;
               number = m_groups mt 2;
               enhancement = m_groups mt 3;
               part = m_groups mt 4;
               cid0 = family @ ''-'' @ py_format number;
               cid1 = (if truthy enhancement then cid0 @ ''('' @ py_format enhancement @ '')''
                       else cid0);
               cid2 = (if truthy part then cid1 @ ''.'' @ lower (py_format part) else cid1);
               start = m_start mt - 50;
               stop = min (length ln) (m_end mt + 100)
           in Inr \<lparr>control_id = cid2,
                   control_family = family,
                   control_family_name =
                     (case map_of CONTROL_FAMILIES family of None \<Rightarrow> ''Unknown'' | Some n \<Rightarrow> n),
                   base_control = family @ ''-'' @ py_format number,
                   has_enhancement = (enhancement \<noteq> None),
                   enhancement_number = enhancement,
                   source_document = f_name fp,
                   source_path = f_path fp,
                   conversion_tool = tool,
                   loc_line = line_num,
                   loc_column = m_start mt,
                   context_snippet = strip (slice ln start stop)\<rparr>))"

definition extract_controls_from_file :: "md_file \<Rightarrow> string \<Rightarrow> error + control_ref list" where
  \<comment> \<open>an unreadable file gives the warning and the empty list\<close>
  "extract_controls_from_file fp tool =
     (case f_content fp of
        None \<Rightarrow> Inr []
      | Some content \<Rightarrow>
          concat_results
            (\<lambda>(line_num, ln).
               concat_results
                 (\<lambda>mt. case control_of_match fp tool line_num ln mt of
                         Inl e \<Rightarrow> Inl e
                       | Inr r \<Rightarrow> Inr [r])
                 (finditer IC CONTROL_PATTERN ln))
            (enumerate1 (split_nl content)))"

record controls_summary =
  total_references :: nat
  unique_controls :: nat
  by_family :: "(string \<times> nat) list"
  by_tool :: "(string \<times> nat) list"
  by_document :: "(string \<times> nat) list"
  controls_found_by_all_tools :: "string list"
  control_families_covered :: "string list"

record controls_output =
  controls :: "control_ref list"
  summary :: controls_summary

definition all_controls_of :: "tree \<Rightarrow> error + control_ref list" where
  \<comment> \<open>the loop over the three backends and the sorted files of each\<close>
  "all_controls_of tr =
     concat_results
       (\<lambda>tool. case tr tool of
                 None \<Rightarrow> Inr []
               | Some fs \<Rightarrow>
                   concat_results (\<lambda>md_file. extract_controls_from_file md_file tool)
                     (sorted_files fs))
       TOOLS"

definition controls_summary_of :: "control_ref list \<Rightarrow> controls_summary" where
  "controls_summary_of all_controls =
     (let by_family0 = foldl (\<lambda>d ctrl. dict_update Suc 0 d (control_family ctrl)) [] all_controls;
          by_control = foldl (\<lambda>d ctrl. dict_update (\<lambda>l. l @ [conversion_tool ctrl]) [] d
                                          (control_id ctrl)) [] all_controls;
          by_tool0 = foldl (\<lambda>d ctrl. dict_update Suc 0 d (conversion_tool ctrl)) [] all_controls;
          by_document0 = foldl (\<lambda>d ctrl. dict_update Suc 0 d (source_document ctrl)) []
                           all_controls;
          unique = remdups (map fst by_control);
          controls_all_tools =
            map fst (filter (\<lambda>(cid, tools). length (remdups tools) = 3) by_control)
      in \<lparr>total_references = length all_controls,
          unique_controls = length unique,
          by_family = sort by_family0,
          by_tool = by_tool0,
          by_document = by_document0,
          controls_found_by_all_tools = sort controls_all_tools,
          control_families_covered = sort (map fst by_family0)\<rparr>)"

definition controls_main :: "tree \<Rightarrow> error + controls_output" where
  \<comment> \<open>\<open>main\<close> of extract-controls.py, without the time stamp and the writing of the file\<close>
  "controls_main tr =
     (case all_controls_of tr of
        Inl e \<Rightarrow> Inl e
      | Inr all_controls \<Rightarrow>
          Inr \<lparr>controls = all_controls, summary = controls_summary_of all_controls\<rparr>)"

section \<open>extract-entities.py\<close>

definition bounded :: "rx \<Rightarrow> rx" where
  \<comment> \<open>\<open>\b(r)\b\<close>\<close>
  "bounded r = seqs [WordB, Grp 1 r, WordB]"

definition D :: rx where
  \<comment> \<open>\<open>\d\<close>\<close>
  "D = CSet [CD]"

definition ENTITY_PATTERNS :: "(string \<times> rx list) list" where
  \<comment> \<open>the pattern table, in the order of the source; every pattern is used with IGNORECASE\<close>
  "ENTITY_PATTERNS =
   [(''role'',
     [bounded (alts [str ''CISO'', str ''CTO'', str ''CIO'', str ''CEO'', str ''CFO'']),
      bounded (seqs [str ''Chief '',
                     alts [str ''Information '', str ''Security '', str ''Technology '', Eps],
                     str ''Officer'']),
      bounded (alts [str ''System Administrator'', str ''SysAdmin'', str ''Admin'']),
      bounded (seqs [str ''Security '',
                     alts [str ''Analyst'', str ''Engineer'', str ''Architect'', str ''Manager'']]),
      bounded (alts [str ''Authorizing Official'', str ''AO'']),
      bounded (alts [seqs [str ''Information System Security '',
                           alts [str ''Officer'', str ''Manager'']],
                     str ''ISSO'', str ''ISSM'']),
      bounded (seqs [str ''SOC '', alts [str ''Analyst'', str ''Manager'', str ''Team'']]),
      bounded (alts [str ''Incident Response Team'', str ''IRT''])]),
    (''organization'',
     [bounded (alts [str ''US-CERT'', str ''CISA'', str ''FedRAMP'', str ''GSA'', str ''NIST'',
                     str ''OMB'', str ''DHS'']),
      bounded (alts [str ''Security Operations Center'', str ''SOC'']),
      bounded (alts [str ''PMO'', str ''Program Management Office''])]),
    (''system'',
     [bounded (alts [str ''AWS'', str ''Azure'', str ''GCP'', str ''Google Cloud'']),
      bounded (alts [str ''Splunk'', str ''CloudWatch'', str ''GuardDuty'']),
      bounded (alts [str ''Okta'', str ''Active Directory'', str ''AD'', str ''LDAP'']),
      bounded (alts [str ''ServiceNow'', str ''Jira'', str ''GitHub'', str ''GitLab'']),
      bounded (alts [str ''Terraform'', str ''Ansible'', str ''Kubernetes'', str ''Docker'']),
      bounded (alts [str ''Qualys'', str ''Nessus'', str ''Tenable''])]),
    (''standard'',
     [bounded (seqs [str ''NIST '', opt (str ''SP ''), str ''800-'', plus D,
                     opt (CSet [CR CHR ''A'' CHR ''Z''])]),
      bounded (seqs [str ''FedRAMP '', alts [str ''Moderate'', str ''High'', str ''Low'']]),
      bounded (seqs [str ''FIPS '',
                     alts [Seq (str ''140-'') (CSet [CC CHR ''2'', CC CHR ''3'']),
                           str ''199'', str ''200'']]),
      bounded (seqs [str ''ISO '',
                     alts [str ''27001'', str ''27002'', str ''27017'', str ''27018'']]),
      bounded (seqs [str ''SOC '', CSet [CC CHR ''1'', CC CHR ''2'']]),
      bounded (str ''CIS Benchmark''),
      bounded (seqs [str ''PCI'', CSet [CC CHR ''-'', CC CHR '' ''], str ''DSS'']),
      bounded (alts [str ''HIPAA'', str ''GDPR'', str ''CCPA''])]),
    (''crypto_module'',
     [bounded (seqs [str ''FIPS 140-'', CSet [CC CHR ''2'', CC CHR ''3''], str '' '',
                     alts [Seq (str ''Level '') (CSet [CR CHR ''1'' CHR ''4'']),
                           str ''validated'']]),
      bounded (alts [str ''OpenSSL'', str ''BoringSSL'',
                     seqs [str ''AWS'', opt (CSet [CC CHR ''-'', CC CHR '' '']), str ''KMS'']]),
      bounded (alts [Seq (str ''TLS '') (plus (CSet [CR CHR ''0'' CHR ''9'', CC CHR ''.''])),
                     str ''SSL'']),
      bounded (alts [Seq (str ''AES-'') (alts [str ''128'', str ''256'']),
                     Seq (str ''RSA-'') (alts [str ''2048'', str ''4096''])])]),
    (''email'',
     [bounded (seqs [plus (CSet [CR CHR ''a'' CHR ''z'', CR CHR ''A'' CHR ''Z'',
                                 CR CHR ''0'' CHR ''9'', CC CHR ''.'', CC CHR ''_'',
                                 CC CHR ''%'', CC CHR ''+'', CC CHR ''-'']),
                     Lit CHR ''@'',
                     plus (CSet [CR CHR ''a'' CHR ''z'', CR CHR ''A'' CHR ''Z'',
                                 CR CHR ''0'' CHR ''9'', CC CHR ''.'', CC CHR ''-'']),
                     Lit CHR ''.'',
                     at_least 2 (CSet [CR CHR ''a'' CHR ''z'', CR CHR ''A'' CHR ''Z''])])]),
    (''url'',
     [bounded (seqs [str ''http'', opt (Lit CHR ''s''), str ''://'',
                     plus (NSet [CS, CC CHR '')''])])]),
    (''timeline'',
     [bounded (seqs [str ''within '',
                     alts [plus D, str ''one'', str ''two'', str ''three'', str ''twenty-four''],
                     str '' '',
                     alts [Seq (str ''hour'') (opt (Lit CHR ''s'')),
                           Seq (str ''day'') (opt (Lit CHR ''s'')),
                           Seq (str ''week'') (opt (Lit CHR ''s'')),
                           Seq (str ''month'') (opt (Lit CHR ''s''))]]),
      bounded (seqs [alts [plus D, str ''quarterly'', str ''annually'', str ''monthly'',
                           str ''weekly'', str ''daily''],
                     str '' '',
                     alts [str ''review'', str ''audit'', str ''assessment'']])])]"

record entity =
  entity_type :: string
  e_value :: string
  occurrences :: nat
  e_source_document :: string
  e_conversion_tool :: string
  sample_contexts :: "string list"

definition normalize :: "string \<Rightarrow> string \<Rightarrow> string" where
  "normalize ty v =
     (let normalized = strip v
      in if ty \<in> set [''role'', ''organization'', ''system'', ''standard'']
         then (if length normalized \<le> 5 then upper normalized else title normalized)
         else normalized)"

definition context_of :: "string \<Rightarrow> rmatch \<Rightarrow> string" where
  \<comment> \<open>30 characters on each side, newlines replaced by spaces, stripped\<close>
  "context_of content mt =
     strip (map (\<lambda>x. if x = NL then CHR '' '' else x)
              (slice content (m_start mt - 30) (min (length content) (m_end mt + 30))))"

type_synonym found = "(string \<times> string list) list"

fun add_matches :: "string \<Rightarrow> string \<Rightarrow> rmatch list \<Rightarrow> found \<Rightarrow> error + found" where
  \<comment> \<open>the loop over the matches of one pattern; \<open>value.strip()\<close> raises when group 1 is \<open>None\<close>\<close>
  "add_matches ty content [] found_values = Inr found_values"
| "add_matches ty content (mt # mts) found_values =
     (case m_groups mt 1 of
        None \<Rightarrow> Inl AttributeError
      | Some v \<Rightarrow>
          add_matches ty content mts
            (dict_update (\<lambda>l. l @ [context_of content mt]) [] found_values (normalize ty v)))"

fun scan_patterns :: "string \<Rightarrow> string \<Rightarrow> rx list \<Rightarrow> found \<Rightarrow> error + found" where
  \<comment> \<open>the loop over the patterns of one entity type\<close>
  "scan_patterns ty content [] found_values = Inr found_values"
| "scan_patterns ty content (p # ps) found_values =
     (case add_matches ty content (finditer IC p content) found_values of
        Inl e \<Rightarrow> Inl e
      | Inr found_values' \<Rightarrow> scan_patterns ty content ps found_values')"

definition entities_of_type ::
  "md_file \<Rightarrow> string \<Rightarrow> string \<Rightarrow> string \<times> rx list \<Rightarrow> error + entity list" where
  \<comment> \<open>one round of the loop over the entity types: scan, then one record per value\<close>
  "entities_of_type fp tool content tp =
     (case scan_patterns (fst tp) content (snd tp) [] of
        Inl e \<Rightarrow> Inl e
      | Inr found_values \<Rightarrow>
          Inr (map (\<lambda>(normalized, contexts).
                      \<lparr>entity_type = fst tp,
                       e_value = normalized,
                       occurrences = length contexts,
                       e_source_document = f_name fp,
                       e_conversion_tool = tool,
                       sample_contexts = take 3 contexts\<rparr>)
                 found_values))"

definition entities_from :: "(string \<times> rx list) list \<Rightarrow> md_file \<Rightarrow> string \<Rightarrow> error + entity list" where
  \<comment> \<open>\<open>extract_entities_from_file\<close> over a given pattern table\<close>
  "entities_from table fp tool =
     (case f_content fp of
        None \<Rightarrow> Inr []
      | Some content \<Rightarrow> concat_results (entities_of_type fp tool content) table)"

definition extract_entities_from_file :: "md_file \<Rightarrow> string \<Rightarrow> error + entity list" where
  "extract_entities_from_file fp tool = entities_from ENTITY_PATTERNS fp tool"

record type_stats =
  ts_total_occurrences :: nat
  ts_unique_values :: nat

record entities_summary =
  total_entities :: nat
  total_occurrences :: nat
  e_by_type :: "(string \<times> type_stats) list"
  unique_values_by_type :: "(string \<times> string list) list"

record entities_output =
  entities :: "entity list"
  e_summary :: entities_summary

definition dict_get :: "('k \<times> 'v) list \<Rightarrow> 'k \<Rightarrow> 'v \<Rightarrow> 'v" where
  \<comment> \<open>\<open>d[k]\<close> on a \<open>defaultdict\<close> whose default is \<open>z\<close>; the scripts never store after it\<close>
  "dict_get d k z = (case map_of d k of None \<Rightarrow> z | Some v \<Rightarrow> v)"

definition all_entities_of :: "tree \<Rightarrow> error + entity list" where
  "all_entities_of tr =
     concat_results
       (\<lambda>tool. case tr tool of
                 None \<Rightarrow> Inr []
               | Some fs \<Rightarrow>
                   concat_results (\<lambda>md_file. extract_entities_from_file md_file tool)
                     (sorted_files fs))
       TOOLS"

definition entities_summary_of :: "entity list \<Rightarrow> entities_summary" where
  "entities_summary_of all_entities =
     (let by_type = foldl (\<lambda>d e. dict_update (\<lambda>v. v + occurrences e) 0 d (entity_type e)) []
                      all_entities;
          unique_by_type = foldl (\<lambda>d e. dict_update (\<lambda>s. set_add s (e_value e)) [] d
                                           (entity_type e)) [] all_entities
      in \<lparr>total_entities = length all_entities,
          total_occurrences = sum_list (map occurrences all_entities),
          e_by_type =
            map (\<lambda>(k, v). (k, \<lparr>ts_total_occurrences = v,
                                ts_unique_values = length (dict_get unique_by_type k [])\<rparr>))
              (sort by_type),
          unique_values_by_type = map (\<lambda>(k, v). (k, take 20 (sort v))) unique_by_type\<rparr>)"

definition entities_main :: "tree \<Rightarrow> error + entities_output" where
  \<comment> \<open>\<open>main\<close> of extract-entities.py, without the time stamp and the writing of the file\<close>
  "entities_main tr =
     (case all_entities_of tr of
        Inl e \<Rightarrow> Inl e
      | Inr all_entities \<Rightarrow>
          Inr \<lparr>entities = all_entities, e_summary = entities_summary_of all_entities\<rparr>)"

section \<open>extract-metadata.py\<close>

definition D09 :: rx where
  \<comment> \<open>\<open>[0-9]\<close>\<close>
  "D09 = CSet [CR CHR ''0'' CHR ''9'']"

definition TITLE_PATTERNS :: "rx list" where
  \<comment> \<open>\<open>^#\s+(.+)$\<close> (Markdown H1) and \<open>^(.+)\n={3,}$\<close> (underline style H1)\<close>
  "TITLE_PATTERNS =
     [seqs [Bol, Lit CHR ''#'', plus (CSet [CS]), Grp 1 (plus Dot), Eol],
      seqs [Bol, Grp 1 (plus Dot), Lit NL, at_least 3 (Lit CHR ''=''), Eol]]"

definition VERSION_PATTERNS :: "rx list" where
  "VERSION_PATTERNS =
     [seqs [CSet [CC CHR ''V'', CC CHR ''v''], str ''ersion'',
            plus (CSet [CC CHR '':'', CS]),
            Grp 1 (Seq (plus D09) (Star (Seq (Lit CHR ''.'') (plus D09))))],
      seqs [CSet [CC CHR ''V'', CC CHR ''v''], opt (Lit CHR ''.''), Star (CSet [CS]),
            Grp 1 (Seq (plus D09) (plus (Seq (Lit CHR ''.'') (plus D09))))],
      seqs [CSet [CC CHR ''R'', CC CHR ''r''], str ''evision'',
            plus (CSet [CC CHR '':'', CS]),
            Grp 1 (Seq (plus D09) (Star (Seq (Lit CHR ''.'') (plus D09))))]]"

definition ISO_DATE :: rx where
  \<comment> \<open>\<open>\d{4}-\d{2}-\d{2}\<close>\<close>
  "ISO_DATE = seqs [exactly 4 D, Lit CHR ''-'', exactly 2 D, Lit CHR ''-'', exactly 2 D]"

definition DATE_PATTERNS :: "rx list" where
  "DATE_PATTERNS =
     [seqs [alts [str ''Effective'', str ''Date'', str ''Updated'', str ''Revised''],
            plus (CSet [CC CHR '':'', CS]),
            Grp 1 ISO_DATE],
      Grp 1 ISO_DATE,
      Grp 1 (seqs [between 1 2 D, Lit CHR ''/'', between 1 2 D, Lit CHR ''/'', exactly 4 D]),
      Grp 1 (seqs [CSet [CR CHR ''A'' CHR ''Z''], plus (CSet [CR CHR ''a'' CHR ''z'']),
                   Lit CHR '' '', between 1 2 D, opt (Lit CHR '',''), Lit CHR '' '',
                   exactly 4 D])]"

definition DOCUMENT_TYPE_KEYWORDS :: "(string \<times> string list) list" where
  "DOCUMENT_TYPE_KEYWORDS =
     [(''policy'', [''policy'', ''policies'']),
      (''procedure'', [''procedure'', ''process'', ''workflow'']),
      (''ssp'', [''system security plan'', ''ssp'', ''security plan'']),
      (''poam'', [''plan of action'', ''poa&m'', ''poam'', ''milestones'']),
      (''sar'', [''security assessment'', ''sar'', ''assessment report'']),
      (''plan'', [''plan'', ''planning'']),
      (''guide'', [''guide'', ''guidance'', ''handbook''])]"

definition META_CONTROL_PATTERN :: rx where
  \<comment> \<open>\<open>CONTROL_PATTERN\<close> of extract-metadata.py: \<open>\b([A-Z]{2})-\d+\<close>, without flags\<close>
  "META_CONTROL_PATTERN =
     seqs [WordB, Grp 1 (exactly 2 (CSet [CR CHR ''A'' CHR ''Z''])), Lit CHR ''-'', plus D]"

record statistics =
  word_count :: nat
  line_count :: nat
  heading_count :: nat
  table_row_count :: nat
  list_item_count :: nat

record metadata =
  source_file :: string
  md_source_path :: string
  md_conversion_tool :: string
  md_title :: "string option"
  document_type :: string
  version :: "string option"
  dates_found :: "string option list"
  control_families :: "string list"
  md_statistics :: statistics

text \<open>
  What \<open>extract_metadata_from_file\<close> returns: the metadata of a file that was read, or
  the dictionary with the single key \<open>error\<close> for a file that was not (the text of the
  exception is not modelled). An entry of \<open>dates_found\<close> is the first group of a match,
  which Python appends as it is, \<open>None\<close> included.
\<close>

datatype meta_result = Meta metadata | ReadError

fun title_of_patterns :: "string \<Rightarrow> rx list \<Rightarrow> string option \<Rightarrow> error + string option" where
  \<comment> \<open>the loop over the title patterns on one line; the first that matches sets the title\<close>
  "title_of_patterns ln [] cur = Inr cur"
| "title_of_patterns ln (p # ps) cur =
     (case re_match MLINE p ln of
        None \<Rightarrow> title_of_patterns ln ps cur
      | Some mt \<Rightarrow>
          (case m_groups mt 1 of
             None \<Rightarrow> Inl AttributeError
           | Some g \<Rightarrow> Inr (Some (strip g))))"

fun title_of_lines :: "string list \<Rightarrow> string option \<Rightarrow> error + string option" where
  \<comment> \<open>the loop over the lines; it ends at the first title that is not empty\<close>
  "title_of_lines [] cur = Inr cur"
| "title_of_lines (ln # lns) cur =
     (case title_of_patterns ln TITLE_PATTERNS cur of
        Inl e \<Rightarrow> Inl e
      | Inr t \<Rightarrow> if truthy t then Inr t else title_of_lines lns t)"

fun version_of :: "rx list \<Rightarrow> string \<Rightarrow> string option" where
  "version_of [] content = None"
| "version_of (p # ps) content =
     (case re_search NOFLAGS p content of
        None \<Rightarrow> version_of ps content
      | Some mt \<Rightarrow> m_groups mt 1)"

fun dates_of_matches :: "rmatch list \<Rightarrow> string option list \<Rightarrow> string option list" where
  \<comment> \<open>the inner loop; its \<open>break\<close> leaves this loop only\<close>
  "dates_of_matches [] found = found"
| "dates_of_matches (mt # mts) found =
     (let date_str = m_groups mt 1
      in if date_str \<notin> set found
         then (let found' = found @ [date_str]
               in if 5 \<le> length found' then found' else dates_of_matches mts found')
         else dates_of_matches mts found)"

fun dates_of_patterns :: "rx list \<Rightarrow> string \<Rightarrow> string option list \<Rightarrow> string option list" where
  \<comment> \<open>the outer loop over the date patterns\<close>
  "dates_of_patterns [] content found = found"
| "dates_of_patterns (p # ps) content found =
     dates_of_patterns ps content (dates_of_matches (finditer NOFLAGS p content) found)"

fun document_type_of :: "(string \<times> string list) list \<Rightarrow> string \<Rightarrow> string" where
  "document_type_of [] content_lower = ''unknown''"
| "document_type_of ((doc_type, keywords) # rest) content_lower =
     (if list_ex (\<lambda>kw. contains content_lower kw) keywords then doc_type
      else document_type_of rest content_lower)"

fun families_of_matches :: "rmatch list \<Rightarrow> string list \<Rightarrow> error + string list" where
  "families_of_matches [] families = Inr families"
| "families_of_matches (mt # mts) families =
     (case m_groups mt 1 of
        None \<Rightarrow> Inl AttributeError
      | Some g \<Rightarrow> families_of_matches mts (set_add families (upper g)))"

definition count_matches :: "rx \<Rightarrow> string \<Rightarrow> nat" where
  \<comment> \<open>\<open>len(re.findall(p, content, re.MULTILINE))\<close>\<close>
  "count_matches p content = length (finditer MLINE p content)"

definition extract_metadata_from_file :: "md_file \<Rightarrow> string \<Rightarrow> error + meta_result" where
  "extract_metadata_from_file fp tool =
     (case f_content fp of
        None \<Rightarrow> Inr ReadError
      | Some content \<Rightarrow>
          (let lines = split_nl content
           in case title_of_lines (take 20 lines) None of
                Inl e \<Rightarrow> Inl e
              | Inr t \<Rightarrow>
                  (case families_of_matches (finditer NOFLAGS META_CONTROL_PATTERN content) [] of
                     Inl e \<Rightarrow> Inl e
                   | Inr families \<Rightarrow>
                       Inr (Meta
                         \<lparr>source_file = f_name fp,
                          md_source_path = f_path fp,
                          md_conversion_tool = tool,
                          md_title = t,
                          document_type = document_type_of DOCUMENT_TYPE_KEYWORDS (lower content),
                          version = version_of VERSION_PATTERNS content,
                          dates_found = dates_of_patterns DATE_PATTERNS content [],
                          control_families = sort families,
                          md_statistics =
                            \<lparr>word_count = word_count_of content,
                             line_count = length lines,
                             heading_count =
                               count_matches (seqs [Bol, plus (Lit CHR ''#''), CSet [CS]]) content,
                             table_row_count = count_matches (seqs [Bol, Lit CHR ''|'']) content,
                             list_item_count =
                               count_matches
                                 (seqs [Bol, CSet [CC CHR ''-'', CC CHR ''*''], CSet [CS]])
                                 content\<rparr>\<rparr>))))"

record metadata_summary =
  total_documents :: nat
  md_by_type :: "(string \<times> nat) list"
  all_control_families :: "string list"
  total_word_count :: nat

record metadata_output =
  documents :: "meta_result list"
  md_summary :: metadata_summary

fun result_type :: "meta_result \<Rightarrow> string" where
  \<comment> \<open>\<open>meta.get('document_type', 'unknown')\<close>\<close>
  "result_type (Meta md) = document_type md"
| "result_type ReadError = ''unknown''"

fun result_families :: "meta_result \<Rightarrow> string list" where
  \<comment> \<open>\<open>meta.get('control_families', [])\<close>\<close>
  "result_families (Meta md) = control_families md"
| "result_families ReadError = []"

fun result_words :: "meta_result \<Rightarrow> nat" where
  \<comment> \<open>\<open>meta.get('statistics', {}).get('word_count', 0)\<close>\<close>
  "result_words (Meta md) = word_count (md_statistics md)"
| "result_words ReadError = 0"

fun collect_results :: "('a \<Rightarrow> error + 'b) \<Rightarrow> 'a list \<Rightarrow> error + 'b list" where
  \<comment> \<open>a loop that appends the result of its body; an exception ends it\<close>
  "collect_results f [] = Inr []"
| "collect_results f (x # xs) =
     (case f x of
        Inl e \<Rightarrow> Inl e
      | Inr y \<Rightarrow> (case collect_results f xs of Inl e \<Rightarrow> Inl e | Inr ys \<Rightarrow> Inr (y # ys)))"

definition all_metadata_of :: "tree \<Rightarrow> error + meta_result list" where
  "all_metadata_of tr =
     concat_results
       (\<lambda>tool. case tr tool of
                 None \<Rightarrow> Inr []
               | Some fs \<Rightarrow>
                   collect_results (\<lambda>md_file. extract_metadata_from_file md_file tool)
                     (sorted_files fs))
       TOOLS"

definition metadata_summary_of :: "meta_result list \<Rightarrow> metadata_summary" where
  "metadata_summary_of all_metadata =
     \<lparr>total_documents = length all_metadata,
      md_by_type = foldl (\<lambda>d meta. dict_update Suc 0 d (result_type meta)) [] all_metadata,
      all_control_families =
        sort (foldl (\<lambda>s meta. foldl set_add s (result_families meta)) [] all_metadata),
      total_word_count = foldl (\<lambda>n meta. n + result_words meta) 0 all_metadata\<rparr>"

definition metadata_main :: "tree \<Rightarrow> error + metadata_output" where
  \<comment> \<open>\<open>main\<close> of extract-metadata.py, without the time stamp and the writing of the file\<close>
  "metadata_main tr =
     (case all_metadata_of tr of
        Inl e \<Rightarrow> Inl e
      | Inr all_metadata \<Rightarrow>
          Inr \<lparr>documents = all_metadata, md_summary = metadata_summary_of all_metadata\<rparr>)"

section \<open>What a match is: the relation the matcher implements\<close>

text \<open>
  \<open>sem fl r prev rest c t prev' rest' c'\<close>: at a position with the character \<open>prev\<close>
  before it and the text \<open>rest\<close> after it, and with the groups \<open>c\<close> set so far, the
  pattern \<open>r\<close> can consume \<open>t\<close>, leaving \<open>rest'\<close> and the groups \<open>c'\<close>. The matcher
  \<open>m\<close> returns one of these ways, the one \<open>re\<close> prefers.
\<close>

inductive sem ::
  "flags \<Rightarrow> rx \<Rightarrow> char option \<Rightarrow> string \<Rightarrow> caps \<Rightarrow> string \<Rightarrow> char option \<Rightarrow> string \<Rightarrow> caps \<Rightarrow> bool"
  for fl :: flags where
  sem_Lit: "lit_eq fl a x \<Longrightarrow> sem fl (Lit a) prev (x # xs) c [x] (Some x) xs c"
| sem_CSet: "set_has fl items x \<Longrightarrow> sem fl (CSet items) prev (x # xs) c [x] (Some x) xs c"
| sem_NSet: "\<not> set_has fl items x \<Longrightarrow> sem fl (NSet items) prev (x # xs) c [x] (Some x) xs c"
| sem_Dot: "x \<noteq> NL \<Longrightarrow> sem fl Dot prev (x # xs) c [x] (Some x) xs c"
| sem_Eps: "sem fl Eps prev rest c [] prev rest c"
| sem_Seq: "sem fl a prev rest c t1 p1 r1 c1 \<Longrightarrow> sem fl b p1 r1 c1 t2 p2 r2 c2 \<Longrightarrow>
            sem fl (Seq a b) prev rest c (t1 @ t2) p2 r2 c2"
| sem_Alt1: "sem fl a prev rest c t p1 r1 c1 \<Longrightarrow> sem fl (Alt a b) prev rest c t p1 r1 c1"
| sem_Alt2: "sem fl b prev rest c t p1 r1 c1 \<Longrightarrow> sem fl (Alt a b) prev rest c t p1 r1 c1"
| sem_Star0: "sem fl (Star a) prev rest c [] prev rest c"
| sem_StarS: "sem fl a prev rest c t1 p1 r1 c1 \<Longrightarrow> t1 \<noteq> [] \<Longrightarrow>
              sem fl (Star a) p1 r1 c1 t2 p2 r2 c2 \<Longrightarrow>
              sem fl (Star a) prev rest c (t1 @ t2) p2 r2 c2"
| sem_Grp: "sem fl a prev rest c t p1 r1 c1 \<Longrightarrow> sem fl (Grp n a) prev rest c t p1 r1 (c1(n \<mapsto> t))"
| sem_WordB: "word_opt prev \<noteq> word_opt (next_char rest) \<Longrightarrow> sem fl WordB prev rest c [] prev rest c"
| sem_Bol: "at_bol fl prev \<Longrightarrow> sem fl Bol prev rest c [] prev rest c"
| sem_Eol: "at_eol fl rest \<Longrightarrow> sem fl Eol prev rest c [] prev rest c"


definition is_letter :: "char \<Rightarrow> bool" where
  "is_letter c = (is_ascii_upper c \<or> is_ascii_lower c)"

definition enh_text :: "string option \<Rightarrow> string" where
  "enh_text e = (case e of None \<Rightarrow> [] | Some d \<Rightarrow> ''('' @ d @ '')'')"

definition part_text :: "string option \<Rightarrow> string" where
  "part_text p = (case p of None \<Rightarrow> [] | Some d \<Rightarrow> ''.'' @ d)"


section \<open>Notions used to state the properties\<close>

text \<open>
  \<open>grouped key upd z xs\<close> is the dictionary a loop builds that, for each \<open>x\<close> of \<open>xs\<close> in
  turn, replaces the entry of \<open>key x\<close> by \<open>upd x\<close> of it, starting from \<open>z\<close>.
\<close>

definition grouped :: "('a \<Rightarrow> 'k) \<Rightarrow> ('a \<Rightarrow> 'v \<Rightarrow> 'v) \<Rightarrow> 'v \<Rightarrow> 'a list \<Rightarrow> ('k \<times> 'v) list" where
  "grouped key upd z xs = foldl (\<lambda>d x. dict_update (upd x) z d (key x)) [] xs"

text \<open>
  \<open>control_ref_of mt r\<close>: the record \<open>r\<close> is the one the claim describes for the match
  \<open>mt\<close>. Its family is the upper-cased first group; its base control is the family, a
  hyphen and the second group; its enhancement number is the third group and its flag
  says whether there is one; its identifier is the base control, followed by the
  enhancement number in parentheses exactly when that group matched and by a dot and
  the lower-cased part exactly when the fourth group matched. \<open>control_matches\<close> lists
  the matches of the control pattern in a file, line by line.
\<close>

definition control_ref_of :: "rmatch \<Rightarrow> control_ref \<Rightarrow> bool" where
  "control_ref_of mt r =
     (\<exists>family number.
        m_groups mt 1 = Some family \<and> m_groups mt 2 = Some number
        \<and> control_family r = upper family
        \<and> base_control r = upper family @ ''-'' @ number
        \<and> enhancement_number r = m_groups mt 3
        \<and> (has_enhancement r \<longleftrightarrow> enhancement_number r \<noteq> None)
        \<and> control_id r =
            base_control r
            @ (case m_groups mt 3 of None \<Rightarrow> [] | Some e \<Rightarrow> ''('' @ e @ '')'')
            @ (case m_groups mt 4 of None \<Rightarrow> [] | Some p \<Rightarrow> ''.'' @ lower p))"

definition control_matches :: "md_file \<Rightarrow> rmatch list" where
  "control_matches fp =
     (case f_content fp of
        None \<Rightarrow> []
      | Some content \<Rightarrow> concat (map (finditer IC CONTROL_PATTERN) (split_nl content)))"


text \<open>
  \<open>sets_group n r\<close>: every match of \<open>r\<close> passes through a group \<open>n\<close>, so that
  \<open>match.group(n)\<close> is not \<open>None\<close>. It is read off the pattern.
\<close>

fun sets_group :: "nat \<Rightarrow> rx \<Rightarrow> bool" where
  "sets_group n (Seq a b) = (sets_group n a \<or> sets_group n b)"
| "sets_group n (Alt a b) = (sets_group n a \<and> sets_group n b)"
| "sets_group n (Grp k a) = (k = n \<or> sets_group n a)"
| "sets_group n _ = False"

fun first_seen :: "'a list \<Rightarrow> 'a list" where
  \<comment> \<open>the distinct elements of a list in the order of their first occurrence\<close>
  "first_seen [] = []"
| "first_seen (x # xs) = x # filter (\<lambda>y. y \<noteq> x) (first_seen xs)"

definition raw_matches :: "rx list \<Rightarrow> string \<Rightarrow> rmatch list" where
  \<comment> \<open>all matches of the patterns of one entity type in a text, pattern by pattern\<close>
  "raw_matches ps content = concat (map (\<lambda>p. finditer IC p content) ps)"

definition entity_key :: "string \<Rightarrow> rmatch \<Rightarrow> string" where
  \<comment> \<open>the normalized value of a match whose first group is set\<close>
  "entity_key ty mt = normalize ty (case m_groups mt 1 of None \<Rightarrow> [] | Some v \<Rightarrow> v)"

definition entity_of ::
  "md_file \<Rightarrow> string \<Rightarrow> string \<Rightarrow> string \<times> string list \<Rightarrow> entity" where
  "entity_of fp tool ty kv =
     \<lparr>entity_type = ty, e_value = fst kv, occurrences = length (snd kv),
      e_source_document = f_name fp, e_conversion_tool = tool,
      sample_contexts = take 3 (snd kv)\<rparr>"

definition entities_of_type_spec ::
  "md_file \<Rightarrow> string \<Rightarrow> string \<Rightarrow> string \<times> rx list \<Rightarrow> entity list" where
  "entities_of_type_spec fp tool content tp =
     map (entity_of fp tool (fst tp))
       (grouped (entity_key (fst tp)) (\<lambda>mt l. l @ [context_of content mt]) []
          (raw_matches (snd tp) content))"





text \<open>
  A canonical control identifier \<open>FF-N[(E)][.p]\<close>: two upper-case letters, a hyphen, a
  number of one or two digits, optionally an enhancement of one or more digits in
  parentheses, optionally a dot and a lower-case part letter.
\<close>

definition canonical_parts :: "char \<Rightarrow> char \<Rightarrow> string \<Rightarrow> string option \<Rightarrow> char option \<Rightarrow> bool" where
  "canonical_parts f1 f2 num e p =
     (is_ascii_upper f1 \<and> is_ascii_upper f2
      \<and> num \<noteq> [] \<and> length num \<le> 2 \<and> list_all is_digit num
      \<and> (case e of None \<Rightarrow> True | Some ds \<Rightarrow> ds \<noteq> [] \<and> list_all is_digit ds)
      \<and> (case p of None \<Rightarrow> True | Some x \<Rightarrow> is_ascii_lower x))"

definition part_str :: "char option \<Rightarrow> string" where
  "part_str p = (case p of None \<Rightarrow> [] | Some x \<Rightarrow> [CHR ''.'', x])"

definition canonical_id :: "char \<Rightarrow> char \<Rightarrow> string \<Rightarrow> string option \<Rightarrow> char option \<Rightarrow> string" where
  "canonical_id f1 f2 num e p = [f1, f2] @ ''-'' @ num @ enh_text e @ part_str p"

definition PART_RX :: rx where
  \<comment> \<open>the optional part that ends the control pattern\<close>
  "PART_RX = Alt (Seq (Lit CHR ''.'') (Grp 4 (CSet [CR CHR ''a'' CHR ''z'']))) Eps"

definition TAIL_RX :: rx where
  \<comment> \<open>the two optional groups that end the control pattern\<close>
  "TAIL_RX =
     Seq (Alt (Seq (Lit CHR ''('') (Seq (Grp 3 (Seq (CSet [CD]) (Star (CSet [CD]))))
                                        (Lit CHR '')''))) Eps)
         PART_RX"

definition tail_groups :: "string option \<Rightarrow> char option \<Rightarrow> caps \<Rightarrow> caps" where
  "tail_groups e p c =
     (let c3 = (case e of None \<Rightarrow> c | Some ds \<Rightarrow> c(3 \<mapsto> ds))
      in case p of None \<Rightarrow> c3 | Some x \<Rightarrow> c3(4 \<mapsto> [x]))"

definition prev_of :: "char option \<Rightarrow> string \<Rightarrow> char option" where
  \<comment> \<open>the character before a position, given the text between a start and the position\<close>
  "prev_of prev a = (if a = [] then prev else Some (last a))"

section \<open>Example inputs\<close>

definition example_file :: "string \<Rightarrow> string \<Rightarrow> string option \<Rightarrow> md_file" where
  "example_file tool name content =
     \<lparr>f_name = name, f_path = ''output/'' @ tool @ ''/markdown/'' @ name, f_content = content\<rparr>"

definition scenario_text :: string where
  "scenario_text = ''Account management (AC-2) reviewed; see also AC-2(1) and SC-7.a.''"

definition consensus_tree :: tree where
  "consensus_tree =
     (\<lambda>tool. if tool = ''pandoc'' then Some [example_file tool ''a.md'' (Some scenario_text)]
             else if tool = ''markitdown'' then Some [example_file tool ''a.md'' (Some ''AC-2 and SC-7.a'')]
             else if tool = ''docling'' then Some [example_file tool ''a.md'' (Some ''ac-2'')]
             else None)"

definition seven_dates_text :: string where
  \<comment> \<open>seven distinct date literals: five ISO dates, a slash date and a long-form date\<close>
  "seven_dates_text =
     ''2024-01-01 2024-02-02 2024-03-03 2024-04-04 2024-05-05 1/2/2024 March 3, 2024''"

definition underline_text :: string where
  \<comment> \<open>a document whose only heading is underline style\<close>
  "underline_text = ''Access Control Policy'' @ [NL] @ ''====================='' @ [NL] @ ''Body.''"

fun meta_of :: "error + meta_result \<Rightarrow> metadata option" where
  "meta_of (Inr (Meta md)) = Some md"
| "meta_of _ = None"

definition entity_text :: string where
  \<comment> \<open>four mentions of one system, in four spellings\<close>
  "entity_text = ''AD ad Ad AD''"

definition mixed_case_text :: string where
  \<comment> \<open>a lower-case family with an enhancement and an upper-case part, and a plain reference\<close>
  "mixed_case_text = ''ac-2(1).B and SC-7''"





definition lower_case_text :: string where
  \<comment> \<open>two control references, both in lower case, in a sentence that starts with a capital\<close>
  "lower_case_text = ''See ac-2 and sc-7(1).''"


section \<open>The matcher is sound\<close>

lemma step_sound:
  "step p rest c k = Some res \<Longrightarrow> \<exists>x xs. rest = x # xs \<and> p x \<and> k [x] (Some x) xs c = Some res"
  by (cases rest) (auto split: if_splits)

lemma star_loop_sound:
  assumes body: "\<And>prev rest c k (res::'r). f prev rest c k = Some res \<Longrightarrow>
            \<exists>t p1 r1 c1. sem fl a prev rest c t p1 r1 c1 \<and> k t p1 r1 c1 = Some res"
  shows "star_loop f n prev rest c k = Some (res::'r) \<Longrightarrow>
         \<exists>t p1 r1 c1. sem fl (Star a) prev rest c t p1 r1 c1 \<and> k t p1 r1 c1 = Some res"
proof (induction n arbitrary: prev rest c k res)
  case 0
  then show ?case using sem_Star0 by fastforce
next
  case (Suc n)
  let ?k1 = "\<lambda>t1 prev1 rest1 c1. if t1 = [] then None
                else star_loop f n prev1 rest1 c1 (\<lambda>t2. k (t1 @ t2))"
  show ?case
  proof (cases "f prev rest c ?k1")
    case None
    with Suc.prems have "k [] prev rest c = Some res" by simp
    then show ?thesis using sem_Star0 by blast
  next
    case (Some r)
    with Suc.prems have r: "r = res" by simp
    from body[OF Some[unfolded r]] obtain t1 p1 r1 c1 where
      s1: "sem fl a prev rest c t1 p1 r1 c1" and k1: "?k1 t1 p1 r1 c1 = Some res" by blast
    from k1 have ne: "t1 \<noteq> []" and
      rec: "star_loop f n p1 r1 c1 (\<lambda>t2. k (t1 @ t2)) = Some res"
      by (auto split: if_splits)
    from Suc.IH[OF rec] obtain t2 p2 r2 c2 where
      s2: "sem fl (Star a) p1 r1 c1 t2 p2 r2 c2" and k2: "k (t1 @ t2) p2 r2 c2 = Some res" by blast
    from sem_StarS[OF s1 ne s2] k2 show ?thesis by blast
  qed
qed

lemma m_sound:
  "m fl r prev rest c k = Some (res::'r) \<Longrightarrow>
   \<exists>t p1 r1 c1. sem fl r prev rest c t p1 r1 c1 \<and> k t p1 r1 c1 = Some res"
proof (induction r arbitrary: prev rest c k res)
  case (Lit a)
  then show ?case by (auto dest!: step_sound) (blast intro: sem_Lit)
next
  case (CSet items)
  then show ?case by (auto dest!: step_sound) (blast intro: sem_CSet)
next
  case (NSet items)
  then show ?case by (auto dest!: step_sound) (blast intro: sem_NSet)
next
  case Dot
  then show ?case by (auto dest!: step_sound) (blast intro: sem_Dot)
next
  case Eps
  then show ?case using sem_Eps by fastforce
next
  case (Seq a b)
  from Seq.prems have
    "m fl a prev rest c (\<lambda>t1 prev1 rest1 c1. m fl b prev1 rest1 c1 (\<lambda>t2. k (t1 @ t2))) = Some res"
    by simp
  from Seq.IH(1)[OF this] obtain t1 p1 r1 c1 where
    s1: "sem fl a prev rest c t1 p1 r1 c1" and
    k1: "m fl b p1 r1 c1 (\<lambda>t2. k (t1 @ t2)) = Some res" by blast
  from Seq.IH(2)[OF k1] obtain t2 p2 r2 c2 where
    s2: "sem fl b p1 r1 c1 t2 p2 r2 c2" and k2: "k (t1 @ t2) p2 r2 c2 = Some res" by blast
  from sem_Seq[OF s1 s2] k2 show ?case by blast
next
  case (Alt a b)
  show ?case
  proof (cases "m fl a prev rest c k")
    case None
    with Alt.prems have "m fl b prev rest c k = Some res" by simp
    from Alt.IH(2)[OF this] show ?thesis by (blast intro: sem_Alt2)
  next
    case (Some r)
    with Alt.prems have "m fl a prev rest c k = Some res" by simp
    from Alt.IH(1)[OF this] show ?thesis by (blast intro: sem_Alt1)
  qed
next
  case (Star a)
  from Star.prems have "star_loop (m fl a) (length rest) prev rest c k = Some res" by simp
  from star_loop_sound[where f="m fl a" and a=a and fl=fl, OF Star.IH this]
  show ?case .
next
  case (Grp n a)
  from Grp.prems have
    "m fl a prev rest c (\<lambda>t prev1 rest1 c1. k t prev1 rest1 (c1(n \<mapsto> t))) = Some res" by simp
  from Grp.IH[OF this] show ?case by (blast intro: sem_Grp)
next
  case WordB
  then have "word_opt prev \<noteq> word_opt (next_char rest)" and "k [] prev rest c = Some res"
    by (auto split: if_splits)
  then show ?case using sem_WordB by blast
next
  case Bol
  then show ?case by (auto split: if_splits) (blast intro: sem_Bol)
next
  case Eol
  then show ?case by (auto split: if_splits) (blast intro: sem_Eol)
qed

lemma sem_text:
  "sem fl r prev rest c t p1 r1 c1 \<Longrightarrow>
   rest = t @ r1 \<and> p1 = (if t = [] then prev else Some (last t))"
  by (induction rule: sem.induct) auto

lemma match_here_sound:
  "match_here fl r prev rest = Some (t, c) \<Longrightarrow>
   \<exists>p1 r1. sem fl r prev rest (\<lambda>n. None) t p1 r1 c"
  unfolding match_here_def by (drule m_sound) auto

section \<open>Characters and the control pattern\<close>

lemma code_char_of: "code (char_of n) = n mod 256"
  by (simp add: code_def)

lemma code_lt: "code c < 256"
  by (simp add: code_def)

lemma code_inj: "code a = code b \<Longrightarrow> a = b"
  by (simp add: code_def)

lemma code_lower_char:
  "code (lower_char c) = (if is_upper c then code c + 32 else code c)"
  using code_lt[of c] by (auto simp: lower_char_def code_char_of is_upper_def is_ascii_upper_def)

lemma code_upper_char:
  "code (upper_char c) = (if is_lower c then code c - 32 else code c)"
  using code_lt[of c] by (auto simp: upper_char_def code_char_of is_lower_def is_ascii_lower_def)

lemma code_consts:
  "code CHR ''A'' = 65" "code CHR ''Z'' = 90" "code CHR ''a'' = 97" "code CHR ''z'' = 122"
  "code CHR ''-'' = 45" "code CHR ''('' = 40" "code CHR '')'' = 41" "code CHR ''.'' = 46"
  by (simp_all add: code_def)

lemma set_has_IC_AZ: "set_has IC [CR CHR ''A'' CHR ''Z''] x = is_letter x"
  by (auto simp: set_has_def IC_def code_consts code_lower_char code_upper_char is_letter_def
        is_upper_def is_lower_def is_ascii_upper_def is_ascii_lower_def)

lemma set_has_IC_az: "set_has IC [CR CHR ''a'' CHR ''z''] x = is_letter x"
  by (auto simp: set_has_def IC_def code_consts code_lower_char code_upper_char is_letter_def
        is_upper_def is_lower_def is_ascii_upper_def is_ascii_lower_def)

lemma set_has_CD: "set_has fl [CD] x = is_digit x"
  by (auto simp: set_has_def code_lower_char code_upper_char is_digit_def
        is_upper_def is_lower_def is_ascii_upper_def is_ascii_lower_def)

lemma lit_eq_nonletter:
  "\<not> is_upper a \<Longrightarrow> \<not> is_lower a \<Longrightarrow> lit_eq fl a x = (x = a)"
proof -
  assume a: "\<not> is_upper a" "\<not> is_lower a"
  have "lower_char x = lower_char a \<Longrightarrow> x = a"
  proof -
    assume "lower_char x = lower_char a"
    then have "code (lower_char x) = code (lower_char a)" by simp
    with a have e: "(if is_upper x then code x + 32 else code x) = code a"
      by (simp add: code_lower_char)
    show "x = a"
    proof (cases "is_upper x")
      case True
      with e have "code a = code x + 32" by simp
      with True a show ?thesis
        using code_lt[of a]
        by (auto simp: is_upper_def is_lower_def is_ascii_upper_def is_ascii_lower_def)
    next
      case False
      with e show ?thesis by (simp add: code_inj)
    qed
  qed
  then show ?thesis by (auto simp: lit_eq_def)
qed

lemma lit_eq_punct:
  "lit_eq fl CHR ''-'' x = (x = CHR ''-'')" "lit_eq fl CHR ''('' x = (x = CHR ''('')"
  "lit_eq fl CHR '')'' x = (x = CHR '')'')" "lit_eq fl CHR ''.'' x = (x = CHR ''.'')"
  by (rule lit_eq_nonletter;
      simp add: is_upper_def is_lower_def is_ascii_upper_def is_ascii_lower_def code_consts)+

lemma set_has_CD_fun: "set_has fl [CD] = is_digit"
  by (rule ext) (rule set_has_CD)

inductive_cases sem_LitE: "sem fl (Lit a) prev rest c t p1 r1 c1"
inductive_cases sem_CSetE: "sem fl (CSet items) prev rest c t p1 r1 c1"
inductive_cases sem_NSetE: "sem fl (NSet items) prev rest c t p1 r1 c1"
inductive_cases sem_DotE: "sem fl Dot prev rest c t p1 r1 c1"
inductive_cases sem_EpsE: "sem fl Eps prev rest c t p1 r1 c1"
inductive_cases sem_SeqE: "sem fl (Seq a b) prev rest c t p1 r1 c1"
inductive_cases sem_AltE: "sem fl (Alt a b) prev rest c t p1 r1 c1"
inductive_cases sem_GrpE: "sem fl (Grp n a) prev rest c t p1 r1 c1"
inductive_cases sem_WordBE: "sem fl WordB prev rest c t p1 r1 c1"
inductive_cases sem_BolE: "sem fl Bol prev rest c t p1 r1 c1"
inductive_cases sem_EolE: "sem fl Eol prev rest c t p1 r1 c1"

lemmas sem_elims = sem_LitE sem_CSetE sem_NSetE sem_DotE sem_EpsE sem_SeqE sem_AltE sem_GrpE
  sem_WordBE sem_BolE sem_EolE

lemma sem_Star_CSet:
  "sem fl r prev rest c t p1 r1 c1 \<Longrightarrow> r = Star (CSet items) \<Longrightarrow>
   c1 = c \<and> list_all (set_has fl items) t"
proof (induction rule: sem.induct)
  case (sem_StarS a prev rest c t1 p1 r1 c1 t2 p2 r2 c2)
  then show ?case by (auto elim!: sem_CSetE)
qed auto

lemma CONTROL_PATTERN_raw:
  "CONTROL_PATTERN =
     Seq WordB
      (Seq (Grp 1 (Seq (CSet [CR CHR ''A'' CHR ''Z'']) (CSet [CR CHR ''A'' CHR ''Z''])))
        (Seq (Lit CHR ''-'')
          (Seq (Grp 2 (Seq (CSet [CD]) (Alt (Seq (CSet [CD]) Eps) Eps)))
            (Seq (Alt (Seq (Lit CHR ''('') (Seq (Grp 3 (Seq (CSet [CD]) (Star (CSet [CD]))))
                                               (Lit CHR '')''))) Eps)
                 (Alt (Seq (Lit CHR ''.'') (Grp 4 (CSet [CR CHR ''a'' CHR ''z'']))) Eps)))))"
  by (simp add: CONTROL_PATTERN_def opt_def plus_def between_def numeral_2_eq_2)

lemma control_sem_shape:
  assumes "sem IC CONTROL_PATTERN prev rest (\<lambda>n. None) t p1 r1 c"
  shows "\<exists>f1 f2 num. c 1 = Some [f1, f2] \<and> is_letter f1 \<and> is_letter f2
           \<and> c 2 = Some num \<and> num \<noteq> [] \<and> length num \<le> 2 \<and> list_all is_digit num
           \<and> (\<forall>e. c 3 = Some e \<longrightarrow> e \<noteq> [] \<and> list_all is_digit e)
           \<and> (\<forall>p. c 4 = Some p \<longrightarrow> (\<exists>x. p = [x] \<and> is_letter x))
           \<and> t = [f1, f2] @ ''-'' @ num @ enh_text (c 3) @ part_text (c 4)
           \<and> word_opt prev \<noteq> word_opt (next_char rest)"
  using assms unfolding CONTROL_PATTERN_raw
  by (auto elim!: sem_elims dest!: sem_Star_CSet[OF _ refl]
       simp: set_has_IC_AZ set_has_IC_az set_has_CD set_has_CD_fun lit_eq_punct enh_text_def part_text_def)

section \<open>Dictionaries\<close>

lemma map_of_dict_update:
  "map_of (dict_update f z d k) = (map_of d)(k \<mapsto> f (case map_of d k of None \<Rightarrow> z | Some v \<Rightarrow> v))"
  by (induction d) (auto simp: fun_eq_iff)

lemma keys_dict_update:
  "map fst (dict_update f z d k) = (if k \<in> set (map fst d) then map fst d else map fst d @ [k])"
  by (induction d) (auto simp: rev_image_eqI)

lemma distinct_dict_update:
  "distinct (map fst d) \<Longrightarrow> distinct (map fst (dict_update f z d k))"
  by (simp add: keys_dict_update)

lemma grouped_snoc:
  "grouped key upd z (xs @ [x]) = dict_update (upd x) z (grouped key upd z xs) (key x)"
  by (simp add: grouped_def)

lemma grouped_Nil: "grouped key upd z [] = []"
  by (simp add: grouped_def)

lemma filter_key_empty: "k \<notin> key ` set xs \<Longrightarrow> filter (\<lambda>x. key x = k) xs = []"
  by (auto simp: filter_empty_conv)

lemma map_of_grouped:
  "map_of (grouped key upd z xs) k =
     (if k \<in> key ` set xs then Some (foldl (\<lambda>v x. upd x v) z (filter (\<lambda>x. key x = k) xs))
      else None)"
proof (induction xs arbitrary: k rule: rev_induct)
  case Nil
  show ?case by (simp add: grouped_Nil)
next
  case (snoc x xs)
  show ?case
    by (auto simp: grouped_snoc map_of_dict_update snoc.IH filter_key_empty)
qed

lemma keys_grouped:
  "set (map fst (grouped key upd z xs)) = key ` set xs"
  by (induction xs rule: rev_induct) (auto simp: grouped_Nil grouped_snoc keys_dict_update)

lemma distinct_grouped: "distinct (map fst (grouped key upd z xs))"
  by (induction xs rule: rev_induct) (auto simp: grouped_Nil grouped_snoc distinct_dict_update)

lemma grouped_mem:
  "(k, v) \<in> set (grouped key upd z xs) \<longleftrightarrow>
     k \<in> key ` set xs \<and> v = foldl (\<lambda>v x. upd x v) z (filter (\<lambda>x. key x = k) xs)"
proof -
  have "(k, v) \<in> set (grouped key upd z xs) \<longleftrightarrow> map_of (grouped key upd z xs) k = Some v"
    using distinct_grouped[of key upd z xs] by simp
  then show ?thesis by (auto simp: map_of_grouped)
qed

lemma foldl_snoc_map: "foldl (\<lambda>v x. v @ [g x]) a ys = a @ map g ys"
  by (induction ys arbitrary: a) auto


section \<open>Loops over results\<close>

lemma concat_results_Inr:
  "(\<And>x. x \<in> set xs \<Longrightarrow> \<exists>ys. f x = Inr ys) \<Longrightarrow> \<exists>zs. concat_results f xs = Inr zs"
proof (induction xs)
  case Nil
  show ?case by simp
next
  case (Cons x xs)
  from Cons.prems obtain ys where "f x = Inr ys" by auto
  moreover from Cons obtain zs where "concat_results f xs = Inr zs" by auto
  ultimately show ?case by simp
qed

lemma concat_results_mem:
  "concat_results f xs = Inr zs \<Longrightarrow> z \<in> set zs \<Longrightarrow>
   \<exists>x ys. x \<in> set xs \<and> f x = Inr ys \<and> z \<in> set ys"
proof (induction xs arbitrary: zs)
  case Nil
  then show ?case by simp
next
  case (Cons x xs)
  from Cons.prems(1) obtain ys zs' where
    fx: "f x = Inr ys" and rec: "concat_results f xs = Inr zs'" and zs: "zs = ys @ zs'"
    by (auto split: sum.splits)
  from Cons.prems(2) zs have "z \<in> set ys \<or> z \<in> set zs'" by simp
  then show ?case
  proof
    assume "z \<in> set ys"
    with fx show ?thesis by auto
  next
    assume "z \<in> set zs'"
    from Cons.IH[OF rec this] show ?thesis by auto
  qed
qed

section \<open>Controls\<close>

declare scan.simps [simp del]

lemma scan_sound:
  "mt \<in> set (scan f skip pos prev s) \<Longrightarrow>
   \<exists>p r. f p r = Some (m_text mt, m_groups mt)"
proof (induction s arbitrary: skip pos prev)
  case Nil
  show ?case
  proof (cases "f prev []")
    case None
    then have "scan f skip pos prev [] = []" by (simp add: scan.simps)
    with Nil show ?thesis by simp
  next
    case (Some tc)
    obtain t c where tc: "tc = (t, c)" by (cases tc)
    with Some have "scan f skip pos prev [] =
        (if skip = 0 then [\<lparr>m_start = pos, m_text = t, m_groups = c\<rparr>] else [])" by (simp add: scan.simps)
    with Nil have "mt = \<lparr>m_start = pos, m_text = t, m_groups = c\<rparr>"
      by (cases "skip = 0") simp_all
    with Some tc have "f prev [] = Some (m_text mt, m_groups mt)" by simp
    then show ?thesis by blast
  qed
next
  case (Cons x xs)
  show ?case
  proof (cases "0 < skip")
    case True
    then have "scan f skip pos prev (x # xs) = scan f (skip - 1) (pos + 1) (Some x) xs"
      by (simp add: scan.simps)
    with Cons.prems have "mt \<in> set (scan f (skip - 1) (pos + 1) (Some x) xs)" by simp
    then show ?thesis by (rule Cons.IH)
  next
    case False
    show ?thesis
    proof (cases "f prev (x # xs)")
      case None
      with False have "scan f skip pos prev (x # xs) = scan f 0 (pos + 1) (Some x) xs"
        by (simp add: scan.simps)
      with Cons.prems have "mt \<in> set (scan f 0 (pos + 1) (Some x) xs)" by simp
      then show ?thesis by (rule Cons.IH)
    next
      case (Some tc)
      obtain t c where tc: "tc = (t, c)" by (cases tc)
      with False Some have "scan f skip pos prev (x # xs) =
          \<lparr>m_start = pos, m_text = t, m_groups = c\<rparr>
            # scan f (length t - 1) (pos + 1) (Some x) xs"
        by (simp add: scan.simps)
      with Cons.prems have
        "mt = \<lparr>m_start = pos, m_text = t, m_groups = c\<rparr>
         \<or> mt \<in> set (scan f (length t - 1) (pos + 1) (Some x) xs)" by simp
      then show ?thesis
      proof
        assume "mt = \<lparr>m_start = pos, m_text = t, m_groups = c\<rparr>"
        with Some tc have "f prev (x # xs) = Some (m_text mt, m_groups mt)" by simp
        then show ?thesis by blast
      next
        assume "mt \<in> set (scan f (length t - 1) (pos + 1) (Some x) xs)"
        then show ?thesis by (rule Cons.IH)
      qed
    qed
  qed
qed

lemma finditer_sound:
  "mt \<in> set (finditer fl r s) \<Longrightarrow>
   \<exists>prev rest p1 r1. sem fl r prev rest (\<lambda>n. None) (m_text mt) p1 r1 (m_groups mt)"
  unfolding finditer_def by (blast dest: scan_sound match_here_sound)

lemma upper_letter: "is_letter x \<Longrightarrow> is_ascii_upper (upper_char x)"
  by (auto simp: is_letter_def is_ascii_upper_def is_ascii_lower_def code_upper_char is_lower_def)

lemma lower_letter: "is_letter x \<Longrightarrow> is_ascii_lower (lower_char x)"
  by (auto simp: is_letter_def is_ascii_upper_def is_ascii_lower_def code_lower_char is_upper_def)

lemma control_of_match_ok:
  assumes "mt \<in> set (finditer IC CONTROL_PATTERN ln)"
  shows "\<exists>r. control_of_match fp tool line_num ln mt = Inr r \<and> control_ref_of mt r
              \<and> conversion_tool r = tool"
proof -
  from finditer_sound[OF assms] obtain prev rest p1 r1 where
    "sem IC CONTROL_PATTERN prev rest (\<lambda>n. None) (m_text mt) p1 r1 (m_groups mt)" by blast
  from control_sem_shape[OF this] obtain f1 f2 num where
    g1: "m_groups mt 1 = Some [f1, f2]" and
    g2: "m_groups mt 2 = Some num" and
    g3: "\<forall>e. m_groups mt 3 = Some e \<longrightarrow> e \<noteq> [] \<and> list_all is_digit e" and
    g4: "\<forall>p. m_groups mt 4 = Some p \<longrightarrow> (\<exists>x. p = [x] \<and> is_letter x)"
    by blast
  from g1 g2 g3 g4 show ?thesis
    by (cases "m_groups mt 3"; cases "m_groups mt 4")
       (auto simp: control_of_match_def Let_def control_ref_of_def py_format_def truthy_def)
qed

lemma extract_controls_ok:
  "\<exists>rs. extract_controls_from_file fp tool = Inr rs
        \<and> (\<forall>r\<in>set rs. conversion_tool r = tool)"
proof (cases "f_content fp")
  case None
  then show ?thesis by (simp add: extract_controls_from_file_def)
next
  case (Some content)
  let ?inner = "\<lambda>line_num ln mt. case control_of_match fp tool line_num ln mt of
                         Inl e \<Rightarrow> Inl e
                       | Inr r \<Rightarrow> Inr [r]"
  let ?outer = "\<lambda>(line_num, ln). concat_results (?inner line_num ln) (finditer IC CONTROL_PATTERN ln)"
  have inner: "\<exists>ys. ?inner n ln mt = Inr ys \<and> (\<forall>r\<in>set ys. conversion_tool r = tool)"
    if "mt \<in> set (finditer IC CONTROL_PATTERN ln)" for n ln mt
    using control_of_match_ok[OF that, of fp tool n] by auto
  have outer: "\<exists>ys. ?outer p = Inr ys" for p
  proof -
    obtain n ln where p: "p = (n, ln)" by (cases p)
    have "\<exists>zs. concat_results (?inner n ln) (finditer IC CONTROL_PATTERN ln) = Inr zs"
      by (rule concat_results_Inr) (use inner in blast)
    with p show ?thesis by simp
  qed
  have "\<exists>rs. concat_results ?outer (enumerate1 (split_nl content)) = Inr rs"
    by (rule concat_results_Inr) (rule outer)
  then obtain rs where rs: "concat_results ?outer (enumerate1 (split_nl content)) = Inr rs" ..
  have "conversion_tool r = tool" if "r \<in> set rs" for r
  proof -
    from concat_results_mem[OF rs that] obtain p ys where
      "?outer p = Inr ys" and r: "r \<in> set ys" by blast
    moreover obtain n ln where "p = (n, ln)" by (cases p)
    ultimately have
      "concat_results (?inner n ln) (finditer IC CONTROL_PATTERN ln) = Inr ys" by simp
    from concat_results_mem[OF this r] obtain mt zs where
      "mt \<in> set (finditer IC CONTROL_PATTERN ln)" and "?inner n ln mt = Inr zs" and "r \<in> set zs"
      by blast
    with inner[of mt ln n] show ?thesis by auto
  qed
  with rs Some show ?thesis by (simp add: extract_controls_from_file_def)
qed

lemma all_controls_ok:
  "\<exists>cs. all_controls_of tr = Inr cs \<and> (\<forall>c\<in>set cs. conversion_tool c \<in> set TOOLS)"
proof -
  let ?files = "\<lambda>tool. concat_results (\<lambda>md_file. extract_controls_from_file md_file tool)"
  let ?tool = "\<lambda>tool. case tr tool of None \<Rightarrow> Inr [] | Some fs \<Rightarrow> ?files tool (sorted_files fs)"
  have files: "\<exists>ys. ?files tool fs = Inr ys \<and> (\<forall>c\<in>set ys. conversion_tool c = tool)"
    for tool fs
  proof -
    have "\<exists>ys. ?files tool fs = Inr ys"
      by (rule concat_results_Inr) (use extract_controls_ok in blast)
    then obtain ys where ys: "?files tool fs = Inr ys" ..
    have "conversion_tool c = tool" if "c \<in> set ys" for c
    proof -
      from concat_results_mem[OF ys that] obtain fp zs where
        "extract_controls_from_file fp tool = Inr zs" "c \<in> set zs" by blast
      with extract_controls_ok[of fp tool] show ?thesis by auto
    qed
    with ys show ?thesis by blast
  qed
  have tool: "\<exists>ys. ?tool tool = Inr ys \<and> (\<forall>c\<in>set ys. conversion_tool c = tool)"
    for tool
    using files[of tool] by (cases "tr tool") auto
  have "\<exists>cs. concat_results ?tool TOOLS = Inr cs"
    by (rule concat_results_Inr) (use tool in blast)
  then obtain cs where cs: "concat_results ?tool TOOLS = Inr cs" ..
  have "conversion_tool c \<in> set TOOLS" if "c \<in> set cs" for c
  proof -
    from concat_results_mem[OF cs that] obtain t ys where
      "t \<in> set TOOLS" "?tool t = Inr ys" "c \<in> set ys" by blast
    with tool[of t] show ?thesis by auto
  qed
  with cs show ?thesis by (auto simp: all_controls_of_def)
qed

lemma by_control_grouped:
  "foldl (\<lambda>d ctrl. dict_update (\<lambda>l. l @ [conversion_tool ctrl]) [] d (control_id ctrl)) [] cs
   = grouped control_id (\<lambda>c l. l @ [conversion_tool c]) [] cs"
  by (simp add: grouped_def)

lemma consensus_mem:
  "cid \<in> set (controls_found_by_all_tools (controls_summary_of cs)) \<longleftrightarrow>
   card (conversion_tool ` {c \<in> set cs. control_id c = cid}) = 3"
proof -
  let ?G = "grouped control_id (\<lambda>c l. l @ [conversion_tool c]) [] cs"
  let ?S = "conversion_tool ` {c \<in> set cs. control_id c = cid}"
  have "cid \<in> set (controls_found_by_all_tools (controls_summary_of cs)) \<longleftrightarrow>
        (\<exists>tools. (cid, tools) \<in> set ?G \<and> length (remdups tools) = 3)"
    by (force simp: controls_summary_of_def Let_def by_control_grouped)
  also have "\<dots> \<longleftrightarrow> cid \<in> control_id ` set cs
       \<and> length (remdups (map conversion_tool (filter (\<lambda>c. control_id c = cid) cs))) = 3"
    by (simp add: grouped_mem foldl_snoc_map)
  also have "\<dots> \<longleftrightarrow> cid \<in> control_id ` set cs \<and> card ?S = 3"
    by (simp add: length_remdups_card_conv Collect_conj_eq Int_commute)
  also have "\<dots> \<longleftrightarrow> card ?S = 3"
  proof -
    have "cid \<in> control_id ` set cs" if "card ?S = 3"
    proof -
      have "?S \<noteq> {}"
      proof
        assume "?S = {}"
        then have "card ?S = 0" by (simp only: card.empty)
        with that show False by simp
      qed
      then show ?thesis by auto
    qed
    then show ?thesis by blast
  qed
  finally show ?thesis .
qed


section \<open>Groups that are always set, and the order of keys\<close>

lemma sem_groups:
  "sem fl r prev rest c t p1 r1 c1 \<Longrightarrow>
   (c n \<noteq> None \<longrightarrow> c1 n \<noteq> None) \<and> (sets_group n r \<longrightarrow> c1 n \<noteq> None)"
  by (induction rule: sem.induct) auto

lemma finditer_group_set:
  assumes "sets_group n r" and "mt \<in> set (finditer fl r s)"
  shows "m_groups mt n \<noteq> None"
proof -
  from finditer_sound[OF assms(2)] obtain prev rest p1 r1 where
    "sem fl r prev rest (\<lambda>n. None) (m_text mt) p1 r1 (m_groups mt)" by blast
  from sem_groups[OF this, of n] assms(1) show ?thesis by simp
qed

lemma re_match_group_set:
  assumes "sets_group n r" and "re_match fl r s = Some mt"
  shows "m_groups mt n \<noteq> None"
proof -
  from assms(2) obtain t c where mh: "match_here fl r None s = Some (t, c)" and
    mt: "mt = \<lparr>m_start = 0, m_text = t, m_groups = c\<rparr>"
    by (auto simp: re_match_def split: option.splits)
  from match_here_sound[OF mh] obtain p1 r1 where
    "sem fl r None s (\<lambda>n. None) t p1 r1 c" by blast
  from sem_groups[OF this, of n] assms(1) mt show ?thesis by simp
qed

lemma first_seen_snoc:
  "first_seen (ys @ [y]) = (if y \<in> set ys then first_seen ys else first_seen ys @ [y])"
proof (induction ys)
  case Nil
  show ?case by simp
next
  case (Cons x xs)
  have "set (first_seen xs) = set xs" for xs :: "'a list"
    by (induction xs) auto
  then have "y \<notin> set xs \<Longrightarrow> filter (\<lambda>z. z \<noteq> x) (first_seen xs @ [y])
      = filter (\<lambda>z. z \<noteq> x) (first_seen xs) @ (if y = x then [] else [y])"
    by simp
  with Cons show ?case by auto
qed

lemma set_first_seen: "set (first_seen xs) = set xs"
  by (induction xs) auto

lemma keys_grouped_first_seen:
  "map fst (grouped key upd z xs) = first_seen (map key xs)"
  by (induction xs rule: rev_induct)
     (simp_all add: grouped_Nil grouped_snoc keys_dict_update first_seen_snoc set_first_seen)

section \<open>The records of the entity extractor\<close>

lemma concat_results_eq:
  "(\<And>x. x \<in> set xs \<Longrightarrow> f x = Inr (g x)) \<Longrightarrow> concat_results f xs = Inr (concat (map g xs))"
  by (induction xs) auto

lemma add_matches_ok:
  "(\<And>mt. mt \<in> set ms \<Longrightarrow> m_groups mt 1 \<noteq> None) \<Longrightarrow>
   add_matches ty content ms fv =
     Inr (foldl (\<lambda>d mt. dict_update (\<lambda>l. l @ [context_of content mt]) [] d (entity_key ty mt))
            fv ms)"
proof (induction ms arbitrary: fv)
  case Nil
  show ?case by simp
next
  case (Cons mt ms)
  from Cons.prems[of mt] obtain v where v: "m_groups mt 1 = Some v" by auto
  have "add_matches ty content ms fv' =
     Inr (foldl (\<lambda>d mt. dict_update (\<lambda>l. l @ [context_of content mt]) [] d (entity_key ty mt))
            fv' ms)" for fv'
    by (rule Cons.IH) (use Cons.prems in auto)
  with v show ?case by (simp add: entity_key_def)
qed

lemma scan_patterns_ok:
  "(\<And>p. p \<in> set ps \<Longrightarrow> sets_group 1 p) \<Longrightarrow>
   scan_patterns ty content ps fv =
     Inr (foldl (\<lambda>d mt. dict_update (\<lambda>l. l @ [context_of content mt]) [] d (entity_key ty mt))
            fv (raw_matches ps content))"
proof (induction ps arbitrary: fv)
  case Nil
  show ?case by (simp add: raw_matches_def)
next
  case (Cons p ps)
  have "m_groups mt 1 \<noteq> None" if "mt \<in> set (finditer IC p content)" for mt
    using finditer_group_set[OF _ that, of 1] Cons.prems[of p] by simp
  then have a: "add_matches ty content (finditer IC p content) fv =
     Inr (foldl (\<lambda>d mt. dict_update (\<lambda>l. l @ [context_of content mt]) [] d (entity_key ty mt))
            fv (finditer IC p content))"
    by (rule add_matches_ok)
  have "scan_patterns ty content ps fv' =
     Inr (foldl (\<lambda>d mt. dict_update (\<lambda>l. l @ [context_of content mt]) [] d (entity_key ty mt))
            fv' (raw_matches ps content))" for fv'
    by (rule Cons.IH) (use Cons.prems in auto)
  with a show ?case by (simp add: raw_matches_def)
qed

lemma entities_of_type_ok:
  assumes "\<And>p. p \<in> set (snd tp) \<Longrightarrow> sets_group 1 p"
  shows "entities_of_type fp tool content tp =
     Inr (map (entity_of fp tool (fst tp))
            (grouped (entity_key (fst tp)) (\<lambda>mt l. l @ [context_of content mt]) []
               (raw_matches (snd tp) content)))"
  using scan_patterns_ok[where ps="snd tp" and ty="fst tp" and content=content and fv="[]", OF assms]
  by (simp add: entities_of_type_def grouped_def entity_of_def case_prod_beta)

lemma spec_type: "e \<in> set (entities_of_type_spec fp tool content tp) \<Longrightarrow> entity_type e = fst tp"
  by (auto simp: entities_of_type_spec_def entity_of_def)

lemma spec_values_distinct: "distinct (map e_value (entities_of_type_spec fp tool content tp))"
proof -
  have "map e_value (entities_of_type_spec fp tool content tp) =
        map fst (grouped (entity_key (fst tp)) (\<lambda>mt l. l @ [context_of content mt]) []
                   (raw_matches (snd tp) content))"
    by (simp add: entities_of_type_spec_def entity_of_def comp_def)
  then show ?thesis by (simp only: distinct_grouped)
qed

lemma spec_values:
  "e_value ` set (entities_of_type_spec fp tool content tp)
   = entity_key (fst tp) ` set (raw_matches (snd tp) content)"
proof -
  have "e_value ` set (entities_of_type_spec fp tool content tp) =
        set (map fst (grouped (entity_key (fst tp)) (\<lambda>mt l. l @ [context_of content mt]) []
                   (raw_matches (snd tp) content)))"
    by (simp add: entities_of_type_spec_def entity_of_def image_image)
  then show ?thesis by (simp only: keys_grouped)
qed

lemma spec_counts:
  assumes "e \<in> set (entities_of_type_spec fp tool content tp)"
  shows "occurrences e =
           length (filter (\<lambda>mt. entity_key (fst tp) mt = e_value e) (raw_matches (snd tp) content))
         \<and> length (sample_contexts e) = min (occurrences e) 3"
proof -
  from assms obtain k v where
    kv: "(k, v) \<in> set (grouped (entity_key (fst tp)) (\<lambda>mt l. l @ [context_of content mt]) []
                         (raw_matches (snd tp) content))" and
    e: "e = entity_of fp tool (fst tp) (k, v)"
    by (auto simp: entities_of_type_spec_def)
  from kv have "v = map (context_of content)
                      (filter (\<lambda>mt. entity_key (fst tp) mt = k) (raw_matches (snd tp) content))"
    by (simp add: grouped_mem foldl_snoc_map)
  with e show ?thesis by (simp add: entity_of_def min_def)
qed

lemma distinct_pairs_concat:
  assumes "distinct (map fst table)"
  shows "distinct (map (\<lambda>e. (entity_type e, e_value e))
                     (concat (map (entities_of_type_spec fp tool content) table)))"
  using assms
proof (induction table)
  case Nil
  show ?case by simp
next
  case (Cons tp table)
  let ?P = "\<lambda>e. (entity_type e, e_value e)"
  have d1: "distinct (map ?P (entities_of_type_spec fp tool content tp))"
  proof -
    have "distinct (map e_value (entities_of_type_spec fp tool content tp))"
      by (rule spec_values_distinct)
    then show ?thesis
      by (auto simp: distinct_map inj_on_def)
  qed
  have d2: "distinct (map ?P (concat (map (entities_of_type_spec fp tool content) table)))"
    using Cons by simp
  have d3: "?P e \<noteq> ?P e'"
    if "e \<in> set (entities_of_type_spec fp tool content tp)"
       "e' \<in> set (concat (map (entities_of_type_spec fp tool content) table))" for e e'
  proof -
    from that(2) obtain tp' where tp': "tp' \<in> set table"
      "e' \<in> set (entities_of_type_spec fp tool content tp')" by auto
    from tp'(1) Cons.prems have "fst tp \<noteq> fst tp'" by auto
    with spec_type[OF that(1)] spec_type[OF tp'(2)] show ?thesis by simp
  qed
  from d1 d2 d3 show ?case by (auto simp: image_iff)
qed

section \<open>The entity extractor never raises\<close>

lemma sets_group_bounded: "sets_group 1 (bounded r)"
  by (simp add: bounded_def)

lemma ENTITY_PATTERNS_groups:
  "(ty, ps) \<in> set ENTITY_PATTERNS \<Longrightarrow> p \<in> set ps \<Longrightarrow> sets_group 1 p"
  by (auto simp: ENTITY_PATTERNS_def sets_group_bounded simp del: One_nat_def)

lemma ENTITY_PATTERNS_distinct: "distinct (map fst ENTITY_PATTERNS)"
  by (simp add: ENTITY_PATTERNS_def)

lemma extract_entities_eq:
  assumes "f_content fp = Some content"
  shows "extract_entities_from_file fp tool =
         Inr (concat (map (entities_of_type_spec fp tool content) ENTITY_PATTERNS))"
proof -
  have "entities_of_type fp tool content tp = Inr (entities_of_type_spec fp tool content tp)"
    if "tp \<in> set ENTITY_PATTERNS" for tp
  proof -
    have "sets_group 1 p" if "p \<in> set (snd tp)" for p
      using ENTITY_PATTERNS_groups[of "fst tp" "snd tp" p] \<open>tp \<in> set ENTITY_PATTERNS\<close> that
      by simp
    then show ?thesis
      unfolding entities_of_type_spec_def by (rule entities_of_type_ok)
  qed
  then have "concat_results (entities_of_type fp tool content) ENTITY_PATTERNS =
        Inr (concat (map (entities_of_type_spec fp tool content) ENTITY_PATTERNS))"
    by (rule concat_results_eq)
  with assms show ?thesis
    by (simp add: extract_entities_from_file_def entities_from_def)
qed


section \<open>The summary of the entities\<close>

lemma extract_entities_total: "\<exists>es. extract_entities_from_file fp tool = Inr es"
proof (cases "f_content fp")
  case None
  then show ?thesis by (simp add: extract_entities_from_file_def entities_from_def)
next
  case (Some content)
  from extract_entities_eq[OF this] show ?thesis by blast
qed

lemma all_entities_total: "\<exists>es. all_entities_of tr = Inr es"
proof -
  have files: "\<exists>ys. concat_results (\<lambda>md_file. extract_entities_from_file md_file tool) fs = Inr ys"
    for tool fs
    by (rule concat_results_Inr) (rule extract_entities_total)
  have "\<exists>ys. (case tr tool of None \<Rightarrow> Inr []
        | Some fs \<Rightarrow> concat_results (\<lambda>md_file. extract_entities_from_file md_file tool)
                     (sorted_files fs)) = Inr ys" for tool
    using files[of tool] by (cases "tr tool") auto
  then show ?thesis unfolding all_entities_of_def by (intro concat_results_Inr) blast
qed


lemma unique_by_type_grouped:
  "foldl (\<lambda>d e. dict_update (\<lambda>s. set_add s (e_value e)) [] d (entity_type e)) [] es
   = grouped entity_type (\<lambda>e s. set_add s (e_value e)) [] es"
  by (simp add: grouped_def)

lemma by_type_grouped:
  "foldl (\<lambda>d e. dict_update (\<lambda>v. v + occurrences e) 0 d (entity_type e)) [] es
   = grouped entity_type (\<lambda>e v. v + occurrences e) 0 es"
  by (simp add: grouped_def)



lemma sorted_map_fst:
  fixes xs :: "('a::linorder \<times> 'b::linorder) list"
  shows "sorted xs \<Longrightarrow> sorted (map fst xs)"
  by (induction xs) (auto simp: less_eq_prod_def)


section \<open>The metadata extractor never raises; the order of the summary maps\<close>

lemma collect_results_Inr:
  "(\<And>x. x \<in> set xs \<Longrightarrow> \<exists>y. f x = Inr y) \<Longrightarrow> \<exists>ys. collect_results f xs = Inr ys"
proof (induction xs)
  case Nil
  show ?case by simp
next
  case (Cons x xs)
  from Cons.prems obtain y where "f x = Inr y" by auto
  moreover from Cons obtain ys where "collect_results f xs = Inr ys" by auto
  ultimately show ?case by simp
qed

lemma TITLE_PATTERNS_groups: "p \<in> set TITLE_PATTERNS \<Longrightarrow> sets_group 1 p"
  by (auto simp: TITLE_PATTERNS_def simp del: One_nat_def)

lemma title_of_patterns_total:
  "(\<And>p. p \<in> set ps \<Longrightarrow> sets_group 1 p) \<Longrightarrow> \<exists>t. title_of_patterns ln ps cur = Inr t"
proof (induction ps)
  case Nil
  show ?case by simp
next
  case (Cons p ps)
  show ?case
  proof (cases "re_match MLINE p ln")
    case None
    with Cons show ?thesis by simp
  next
    case (Some mt)
    from re_match_group_set[OF _ Some, of 1] Cons.prems[of p]
    obtain g where "m_groups mt 1 = Some g" by auto
    with Some show ?thesis by simp
  qed
qed

lemma title_of_lines_total: "\<exists>t. title_of_lines lns cur = Inr t"
proof (induction lns arbitrary: cur)
  case Nil
  show ?case by simp
next
  case (Cons ln lns)
  from title_of_patterns_total[of TITLE_PATTERNS ln cur] TITLE_PATTERNS_groups
  obtain t where t: "title_of_patterns ln TITLE_PATTERNS cur = Inr t" by blast
  from Cons[of t] obtain t' where "title_of_lines lns t = Inr t'" by blast
  with t show ?case by simp
qed

lemma families_of_matches_total:
  "(\<And>mt. mt \<in> set ms \<Longrightarrow> m_groups mt 1 \<noteq> None) \<Longrightarrow>
   \<exists>fs. families_of_matches ms acc = Inr fs"
proof (induction ms arbitrary: acc)
  case Nil
  show ?case by simp
next
  case (Cons mt ms)
  from Cons.prems[of mt] obtain g where g: "m_groups mt 1 = Some g" by auto
  have "\<exists>fs. families_of_matches ms acc' = Inr fs" for acc'
    by (rule Cons.IH) (use Cons.prems in auto)
  with g show ?case by simp
qed

lemma META_CONTROL_PATTERN_group: "sets_group 1 META_CONTROL_PATTERN"
  by (simp add: META_CONTROL_PATTERN_def del: One_nat_def)

lemma extract_metadata_total:
  "\<exists>r. extract_metadata_from_file fp tool = Inr r \<and> (r = ReadError \<longleftrightarrow> f_content fp = None)"
proof (cases "f_content fp")
  case None
  then show ?thesis by (simp add: extract_metadata_from_file_def)
next
  case (Some content)
  from title_of_lines_total obtain t where
    t: "title_of_lines (take 20 (split_nl content)) None = Inr t" by blast
  have "\<exists>fs. families_of_matches (finditer NOFLAGS META_CONTROL_PATTERN content) [] = Inr fs"
    by (rule families_of_matches_total)
       (rule finditer_group_set[OF META_CONTROL_PATTERN_group])
  then obtain fs where
    "families_of_matches (finditer NOFLAGS META_CONTROL_PATTERN content) [] = Inr fs" ..
  with t Some show ?thesis by (simp add: extract_metadata_from_file_def Let_def)
qed

lemma all_metadata_total: "\<exists>ms. all_metadata_of tr = Inr ms"
proof -
  have files: "\<exists>ys. collect_results (\<lambda>md_file. extract_metadata_from_file md_file tool) fs = Inr ys"
    for tool fs
    by (rule collect_results_Inr) (use extract_metadata_total in blast)
  have "\<exists>ys. (case tr tool of None \<Rightarrow> Inr []
        | Some fs \<Rightarrow> collect_results (\<lambda>md_file. extract_metadata_from_file md_file tool)
                     (sorted_files fs)) = Inr ys" for tool
    using files[of tool] by (cases "tr tool") auto
  then show ?thesis unfolding all_metadata_of_def by (intro concat_results_Inr) blast
qed

lemma sorted_keys_sort:
  fixes d :: "(string \<times> 'b::linorder) list"
  shows "sorted (map fst (sort d))"
  by (rule sorted_map_fst) simp

lemma controls_summary_order:
  "sorted (map fst (by_family (controls_summary_of cs)))
   \<and> map fst (by_tool (controls_summary_of cs)) = first_seen (map conversion_tool cs)
   \<and> map fst (by_document (controls_summary_of cs)) = first_seen (map source_document cs)"
proof -
  have "foldl (\<lambda>d ctrl. dict_update Suc 0 d (key ctrl)) [] cs = grouped key (\<lambda>c. Suc) 0 cs"
    for key :: "control_ref \<Rightarrow> string"
    by (simp add: grouped_def)
  then show ?thesis
    by (simp add: controls_summary_of_def Let_def keys_grouped_first_seen sorted_keys_sort)
qed

lemma entities_summary_order:
  "sorted (map fst (e_by_type (entities_summary_of es)))
   \<and> map fst (unique_values_by_type (entities_summary_of es)) = first_seen (map entity_type es)"
proof -
  have a: "fst \<circ> (\<lambda>(k, v). (k, f k v)) = fst" for f :: "string \<Rightarrow> nat \<Rightarrow> type_stats"
    by (auto simp: fun_eq_iff)
  have b: "fst \<circ> (\<lambda>(k, v). (k, g v)) = fst" for g :: "string list \<Rightarrow> string list"
    by (auto simp: fun_eq_iff)
  show ?thesis
    by (simp add: entities_summary_of_def Let_def unique_by_type_grouped by_type_grouped
          a b keys_grouped_first_seen sorted_keys_sort)
qed

lemma metadata_summary_order:
  "map fst (md_by_type (metadata_summary_of ms)) = first_seen (map result_type ms)"
proof -
  have "foldl (\<lambda>d meta. dict_update Suc 0 d (result_type meta)) [] ms
        = grouped result_type (\<lambda>c. Suc) 0 ms"
    by (simp add: grouped_def)
  then show ?thesis by (simp add: metadata_summary_of_def keys_grouped_first_seen)
qed


section \<open>Runs with and without the files that cannot be read\<close>













section \<open>The control pattern on a canonical identifier\<close>

lemma star_loop_class_greedy:
  assumes "list_all p ds" and "case rest of [] \<Rightarrow> True | x # _ \<Rightarrow> \<not> p x" and "length ds \<le> n"
    and "k ds (if ds = [] then prev else Some (last ds)) rest c = Some res"
  shows "star_loop (\<lambda>prev rest c k. step p rest c k) n prev (ds @ rest) c k = Some res"
  using assms
proof (induction ds arbitrary: n prev k)
  case Nil
  then have s: "step p rest c k' = None" for k' :: "'a cont"
    by (cases rest) auto
  from Nil show ?case by (cases n) (simp_all add: s)
next
  case (Cons d ds)
  from Cons.prems(3) obtain n' where n: "n = Suc n'" "length ds \<le> n'" by (cases n) auto
  from Cons.prems(1) have pd: "p d" "list_all p ds" by simp_all
  have "star_loop (\<lambda>prev rest c k. step p rest c k) n' (Some d) (ds @ rest) c (\<lambda>t2. k ([d] @ t2))
        = Some res"
  proof (rule Cons.IH[OF pd(2) Cons.prems(2) n(2)])
    from Cons.prems(4) show
      "k ([d] @ ds) (if ds = [] then Some d else Some (last ds)) rest c = Some res"
      by (cases ds) simp_all
  qed
  with pd(1) n(1) show ?case by simp
qed

lemma is_digit_punct:
  "\<not> is_digit CHR ''(''" "\<not> is_digit CHR '')''" "\<not> is_digit CHR ''.''" "\<not> is_digit CHR ''-''"
  by (simp_all add: is_digit_def code_consts)

lemma letter_cases: "is_ascii_upper x \<Longrightarrow> is_letter x" "is_ascii_lower x \<Longrightarrow> is_letter x"
  by (simp_all add: is_letter_def)

lemma part_eval:
  assumes p: "case p of None \<Rightarrow> True | Some x \<Rightarrow> is_ascii_lower x"
  shows "m IC PART_RX pv (part_str p) c0 (\<lambda>t p' r' c'. Some (G t c'))
        = Some (G (part_str p) (case p of None \<Rightarrow> c0 | Some x \<Rightarrow> c0(4 \<mapsto> [x])))"
  using p
  by (cases p) (simp_all add: PART_RX_def part_str_def lit_eq_punct set_has_IC_az letter_cases)

lemma tail_eval:
  assumes e: "case e of None \<Rightarrow> True | Some ds \<Rightarrow> ds \<noteq> [] \<and> list_all is_digit ds"
    and p: "case p of None \<Rightarrow> True | Some x \<Rightarrow> is_ascii_lower x"
  shows "m IC TAIL_RX prev (enh_text e @ part_str p) c (\<lambda>t p' r' c'. Some (F t c'))
         = Some (F (enh_text e @ part_str p) (tail_groups e p c))"
proof (cases e)
  case None
  have "step (lit_eq IC CHR ''('') (part_str p) c k = None" for k :: "'a cont"
    by (cases p) (simp_all add: part_str_def lit_eq_punct)
  with None show ?thesis
    by (simp add: TAIL_RX_def enh_text_def tail_groups_def Let_def part_eval[OF p])
next
  case (Some ds)
  with e obtain d ds' where ds: "ds = d # ds'" "is_digit d" "list_all is_digit ds'"
    by (cases ds) auto
  let ?k = "\<lambda>t p1 r1 c1.
               step (lit_eq IC CHR '')'') r1 (c1(3 \<mapsto> d # t))
                 (\<lambda>t2a p2 r2 c2. m IC PART_RX p2 r2 c2
                     (\<lambda>t2b p3 r3 c3. Some (F (CHR ''('' # d # t @ t2a @ t2b) c3)))"
  have rest: "case '')'' @ part_str p of [] \<Rightarrow> True | x # _ \<Rightarrow> \<not> set_has IC [CD] x"
    by (simp add: set_has_CD is_digit_punct)
  have star: "star_loop (\<lambda>prev rest c k. step (set_has IC [CD]) rest c k)
               (length (ds' @ '')'' @ part_str p)) (Some d) (ds' @ '')'' @ part_str p) c ?k
             = Some (F (''('' @ ds @ '')'' @ part_str p) (tail_groups e p c))"
  proof (rule star_loop_class_greedy)
    show "list_all (set_has IC [CD]) ds'" using ds(3) by (simp add: set_has_CD_fun)
    show "case '')'' @ part_str p of [] \<Rightarrow> True | x # _ \<Rightarrow> \<not> set_has IC [CD] x" by (rule rest)
    show "length ds' \<le> length (ds' @ '')'' @ part_str p)" by simp
    show "?k ds' (if ds' = [] then Some d else Some (last ds')) ('')'' @ part_str p) c
          = Some (F (''('' @ ds @ '')'' @ part_str p) (tail_groups e p c))"
      using Some ds(1)
      by (simp add: lit_eq_punct tail_groups_def Let_def part_eval[OF p])
  qed
  from Some ds(1,2) star show ?thesis
    by (simp add: TAIL_RX_def enh_text_def lit_eq_punct set_has_CD)
qed

lemma CONTROL_PATTERN_tail:
  "CONTROL_PATTERN =
     Seq WordB
      (Seq (Grp 1 (Seq (CSet [CR CHR ''A'' CHR ''Z'']) (CSet [CR CHR ''A'' CHR ''Z''])))
        (Seq (Lit CHR ''-'')
          (Seq (Grp 2 (Seq (CSet [CD]) (Alt (Seq (CSet [CD]) Eps) Eps))) TAIL_RX)))"
  by (simp add: CONTROL_PATTERN_raw TAIL_RX_def PART_RX_def)

lemma tail_no_digit:
  "step (set_has IC [CD]) (enh_text e @ part_str p) c k = None"
  by (cases e; cases p) (simp_all add: enh_text_def part_str_def set_has_CD is_digit_punct)

lemma upper_is_word: "is_ascii_upper x \<Longrightarrow> is_word x"
  by (simp add: is_word_def)

lemma match_canonical:
  assumes "canonical_parts f1 f2 num e p"
  shows "match_here IC CONTROL_PATTERN None (canonical_id f1 f2 num e p)
         = Some (canonical_id f1 f2 num e p,
                 tail_groups e p ((\<lambda>n. None)(1 \<mapsto> [f1, f2], 2 \<mapsto> num)))"
proof -
  from assms have f: "is_ascii_upper f1" "is_ascii_upper f2"
    and e: "case e of None \<Rightarrow> True | Some ds \<Rightarrow> ds \<noteq> [] \<and> list_all is_digit ds"
    and p: "case p of None \<Rightarrow> True | Some x \<Rightarrow> is_ascii_lower x"
    and n: "num \<noteq> []" "length num \<le> 2" "list_all is_digit num"
    by (simp_all add: canonical_parts_def)
  from n consider d1 where "num = [d1]" "is_digit d1"
    | d1 d2 where "num = [d1, d2]" "is_digit d1" "is_digit d2"
    by (cases num; cases "tl num") auto
  then show ?thesis
  proof cases
    case 1
    with f show ?thesis
      by (simp add: match_here_def CONTROL_PATTERN_tail canonical_id_def word_opt_def
            next_char_def upper_is_word set_has_IC_AZ letter_cases lit_eq_punct set_has_CD
            tail_no_digit tail_eval[OF e p])
  next
    case 2
    with f show ?thesis
      by (simp add: match_here_def CONTROL_PATTERN_tail canonical_id_def word_opt_def
            next_char_def upper_is_word set_has_IC_AZ letter_cases lit_eq_punct set_has_CD
            tail_eval[OF e p])
  qed
qed

lemma match_here_control_empty: "match_here IC CONTROL_PATTERN prev [] = None"
  by (simp add: match_here_def CONTROL_PATTERN_tail next_char_def)

lemma scan_skip:
  "scan f (length xs) pos prev xs
   = scan f 0 (pos + length xs) (if xs = [] then prev else Some (last xs)) []"
  by (induction xs arbitrary: pos prev) (simp_all add: scan.simps(2))

lemma finditer_canonical:
  assumes "canonical_parts f1 f2 num e p"
  shows "finditer IC CONTROL_PATTERN (canonical_id f1 f2 num e p)
         = [\<lparr>m_start = 0, m_text = canonical_id f1 f2 num e p,
             m_groups = tail_groups e p ((\<lambda>n. None)(1 \<mapsto> [f1, f2], 2 \<mapsto> num))\<rparr>]"
proof -
  let ?s = "canonical_id f1 f2 num e p"
  obtain rest where s: "?s = f1 # rest" by (simp add: canonical_id_def)
  have "scan (match_here IC CONTROL_PATTERN) (length rest) 1 (Some f1) rest = []"
    unfolding scan_skip by (simp add: scan.simps match_here_control_empty)
  with match_canonical[OF assms] s show ?thesis
    by (simp add: finditer_def scan.simps)
qed

lemma split_nl_single: "NL \<notin> set s \<Longrightarrow> split_nl s = [s]"
  by (induction s) auto

lemma canonical_no_newline:
  assumes "canonical_parts f1 f2 num e p"
  shows "NL \<notin> set (canonical_id f1 f2 num e p)"
proof -
  have d: "\<not> is_digit NL" by (simp add: is_digit_def code_def)
  have u: "\<not> is_ascii_upper NL" by (simp add: is_ascii_upper_def code_def)
  have l: "\<not> is_ascii_lower NL" by (simp add: is_ascii_lower_def code_def)
  have nd: "NL \<notin> set ds" if "list_all is_digit ds" for ds
    using that d by (auto simp: list_all_iff)
  from assms u l nd show ?thesis
    by (cases e; cases p)
       (auto simp: canonical_parts_def canonical_id_def enh_text_def part_str_def)
qed

lemma upper_of_upper: "is_ascii_upper x \<Longrightarrow> upper_char x = x"
  by (simp add: upper_char_def is_lower_def is_ascii_upper_def is_ascii_lower_def)

lemma lower_of_lower: "is_ascii_lower x \<Longrightarrow> lower_char x = x"
  by (simp add: lower_char_def is_upper_def is_ascii_upper_def is_ascii_lower_def)


section \<open>Where the scan finds its matches\<close>

lemma scan_position:
  "mt \<in> set (scan f skip pos prev s) \<Longrightarrow>
   \<exists>a b. s = a @ b \<and> f (prev_of prev a) b = Some (m_text mt, m_groups mt)"
proof (induction s arbitrary: skip pos prev)
  case Nil
  show ?case
  proof (cases "f prev []")
    case None
    then have "scan f skip pos prev [] = []" by (simp add: scan.simps)
    with Nil show ?thesis by simp
  next
    case (Some tc)
    obtain t c where tc: "tc = (t, c)" by (cases tc)
    with Some have "scan f skip pos prev [] =
        (if skip = 0 then [\<lparr>m_start = pos, m_text = t, m_groups = c\<rparr>] else [])"
      by (simp add: scan.simps)
    with Nil have "mt = \<lparr>m_start = pos, m_text = t, m_groups = c\<rparr>"
      by (cases "skip = 0") simp_all
    with Some tc have "f (prev_of prev []) [] = Some (m_text mt, m_groups mt)"
      by (simp add: prev_of_def)
    then show ?thesis by blast
  qed
next
  case (Cons x xs)
  have step: "\<exists>a b. x # xs = a @ b \<and> f (prev_of prev a) b = Some (m_text mt, m_groups mt)"
    if "mt \<in> set (scan f k (pos + 1) (Some x) xs)" for k
  proof -
    from Cons.IH[OF that] obtain a b where
      ab: "xs = a @ b" "f (prev_of (Some x) a) b = Some (m_text mt, m_groups mt)" by blast
    have "prev_of prev (x # a) = prev_of (Some x) a" by (simp add: prev_of_def)
    with ab have "x # xs = (x # a) @ b \<and> f (prev_of prev (x # a)) b = Some (m_text mt, m_groups mt)"
      by simp
    then show ?thesis by blast
  qed
  show ?case
  proof (cases "0 < skip")
    case True
    then have "scan f skip pos prev (x # xs) = scan f (skip - 1) (pos + 1) (Some x) xs"
      by (simp add: scan.simps)
    with Cons.prems show ?thesis by (simp add: step)
  next
    case False
    show ?thesis
    proof (cases "f prev (x # xs)")
      case None
      with False have "scan f skip pos prev (x # xs) = scan f 0 (pos + 1) (Some x) xs"
        by (simp add: scan.simps)
      with Cons.prems show ?thesis by (simp add: step)
    next
      case (Some tc)
      obtain t c where tc: "tc = (t, c)" by (cases tc)
      with False Some have "scan f skip pos prev (x # xs) =
          \<lparr>m_start = pos, m_text = t, m_groups = c\<rparr>
            # scan f (length t - 1) (pos + 1) (Some x) xs"
        by (simp add: scan.simps)
      with Cons.prems have
        "mt = \<lparr>m_start = pos, m_text = t, m_groups = c\<rparr>
         \<or> mt \<in> set (scan f (length t - 1) (pos + 1) (Some x) xs)" by simp
      then show ?thesis
      proof
        assume "mt = \<lparr>m_start = pos, m_text = t, m_groups = c\<rparr>"
        with Some tc have "x # xs = [] @ (x # xs)
            \<and> f (prev_of prev []) (x # xs) = Some (m_text mt, m_groups mt)"
          by (simp add: prev_of_def)
        then show ?thesis by blast
      next
        assume "mt \<in> set (scan f (length t - 1) (pos + 1) (Some x) xs)"
        then show ?thesis by (rule step)
      qed
    qed
  qed
qed

lemma scan_covers:
  assumes pref: "\<And>p b t c. f p b = Some (t, c) \<Longrightarrow> t \<noteq> [] \<and> (\<exists>r. b = t @ r)"
    and hit: "f (prev_of prev a) w \<noteq> None"
    and skip: "skip \<le> length a"
  shows "\<exists>mt\<in>set (scan f skip pos prev (a @ w)). \<exists>a' r.
           a @ w = a' @ m_text mt @ r \<and> length a' \<le> length a
           \<and> length a < length a' + length (m_text mt)"
  using hit skip
proof (induction a arbitrary: skip pos prev)
  case Nil
  then obtain t c where tc: "f prev w = Some (t, c)" by (auto simp: prev_of_def)
  from pref[OF tc] obtain r where t: "t \<noteq> []" "w = t @ r" by blast
  from t have "w \<noteq> []" by simp
  then obtain x xs where w: "w = x # xs" by (cases w) simp_all
  from Nil tc w have "scan f skip pos prev ([] @ w) =
      \<lparr>m_start = pos, m_text = t, m_groups = c\<rparr> # scan f (length t - 1) (pos + 1) (Some x) xs"
    by (simp add: scan.simps)
  moreover have "[] @ w = [] @ t @ r \<and> length ([]::string) \<le> length ([]::string)
      \<and> length ([]::string) < length ([]::string) + length t"
    using t by simp
  ultimately show ?case by auto
next
  case (Cons x a)
  have p: "prev_of (Some x) a = prev_of prev (x # a)" by (simp add: prev_of_def)
  have lift: "\<exists>mt\<in>set (scan f k (pos + 1) (Some x) (a @ w)). \<exists>a' r.
           (x # a) @ w = a' @ m_text mt @ r \<and> length a' \<le> length (x # a)
           \<and> length (x # a) < length a' + length (m_text mt)"
    if k: "k \<le> length a" for k
  proof -
    from Cons.prems(1) have "f (prev_of (Some x) a) w \<noteq> None" by (simp add: p)
    from Cons.IH[OF this k, of "pos + 1"] obtain mt a' r where
      mt: "mt \<in> set (scan f k (pos + 1) (Some x) (a @ w))" and
      e: "a @ w = a' @ m_text mt @ r" "length a' \<le> length a"
         "length a < length a' + length (m_text mt)" by blast
    from e have "(x # a) @ w = (x # a') @ m_text mt @ r \<and> length (x # a') \<le> length (x # a)
           \<and> length (x # a) < length (x # a') + length (m_text mt)" by simp
    with mt show ?thesis by blast
  qed
  show ?case
  proof (cases "0 < skip")
    case True
    then have "scan f skip pos prev ((x # a) @ w) = scan f (skip - 1) (pos + 1) (Some x) (a @ w)"
      by (simp add: scan.simps)
    moreover from True Cons.prems(2) have "skip - 1 \<le> length a" by simp
    ultimately show ?thesis using lift by simp
  next
    case False
    show ?thesis
    proof (cases "f prev ((x # a) @ w)")
      case None
      with False have "scan f skip pos prev ((x # a) @ w) = scan f 0 (pos + 1) (Some x) (a @ w)"
        by (simp add: scan.simps)
      then show ?thesis using lift[of 0] by simp
    next
      case (Some tc)
      obtain t c where tc: "tc = (t, c)" by (cases tc)
      from pref[OF Some[unfolded tc]] obtain r where t: "t \<noteq> []" "(x # a) @ w = t @ r" by blast
      from False Some tc have sc: "scan f skip pos prev ((x # a) @ w) =
          \<lparr>m_start = pos, m_text = t, m_groups = c\<rparr>
            # scan f (length t - 1) (pos + 1) (Some x) (a @ w)"
        by (simp add: scan.simps)
      show ?thesis
      proof (cases "length (x # a) < length t")
        case True
        with t have "(x # a) @ w = [] @ t @ r \<and> length ([]::string) \<le> length (x # a)
            \<and> length (x # a) < length ([]::string) + length t" by simp
        with sc show ?thesis
          by (metis list.set_intros(1) rmatch.select_convs(2))
      next
        case False
        then have "length t - 1 \<le> length a" by simp
        from lift[OF this] sc show ?thesis by auto
      qed
    qed
  qed
qed

section \<open>Lines, and where the two control patterns match\<close>

lemma split_nl_nonempty: "split_nl s \<noteq> []"
  by (induction s) (auto split: list.splits)

lemma split_nl_append: "split_nl (u @ NL # v) = split_nl u @ split_nl v"
proof (induction u)
  case Nil
  show ?case by simp
next
  case (Cons x u)
  obtain l ls where "split_nl u = l # ls" using split_nl_nonempty[of u] by (cases "split_nl u") auto
  with Cons show ?case by simp
qed

lemma line_of_position:
  assumes "NL \<notin> set w" and "a = [] \<or> last a = NL" and "b = [] \<or> hd b = NL"
  shows "w \<in> set (split_nl (a @ w @ b))"
proof -
  have r: "w \<in> set (split_nl (w @ b))"
  proof (cases b)
    case Nil
    with assms(1) show ?thesis by (simp add: split_nl_single)
  next
    case (Cons y ys)
    with assms(3) have "b = NL # ys" by simp
    with assms(1) show ?thesis by (simp add: split_nl_append split_nl_single)
  qed
  show ?thesis
  proof (cases "a = []")
    case True
    with r show ?thesis by simp
  next
    case False
    with assms(2) obtain a0 where "a = a0 @ [NL]" by (metis append_butlast_last_id)
    then have "split_nl (a @ w @ b) = split_nl a0 @ split_nl (w @ b)"
      using split_nl_append[of a0 "w @ b"] by simp
    with r show ?thesis by simp
  qed
qed

lemma cut_before:
  "\<exists>a0 a1. a = a0 @ a1 \<and> NL \<notin> set a1 \<and> (a0 = [] \<or> last a0 = NL)"
proof (induction a rule: rev_induct)
  case Nil
  show ?case by simp
next
  case (snoc x a)
  show ?case
  proof (cases "x = NL")
    case True
    then have "a @ [x] = (a @ [x]) @ [] \<and> NL \<notin> set ([]::string) \<and> last (a @ [x]) = NL" by simp
    then show ?thesis by blast
  next
    case False
    from snoc obtain a0 a1 where "a = a0 @ a1" "NL \<notin> set a1" "a0 = [] \<or> last a0 = NL" by blast
    with False have "a @ [x] = a0 @ (a1 @ [x]) \<and> NL \<notin> set (a1 @ [x]) \<and> (a0 = [] \<or> last a0 = NL)"
      by simp
    then show ?thesis by blast
  qed
qed

lemma cut_after:
  "\<exists>b1 b2. b = b1 @ b2 \<and> NL \<notin> set b1 \<and> (b2 = [] \<or> hd b2 = NL)"
proof -
  let ?b1 = "takeWhile (\<lambda>x. x \<noteq> NL) b" and ?b2 = "dropWhile (\<lambda>x. x \<noteq> NL) b"
  have "b = ?b1 @ ?b2" by simp
  moreover have "NL \<notin> set ?b1" by (auto dest: set_takeWhileD)
  moreover have "?b2 = [] \<or> hd ?b2 = NL" using hd_dropWhile[of "\<lambda>x. x \<noteq> NL" b] by auto
  ultimately show ?thesis by blast
qed

lemma set_has_NOFLAGS_AZ: "set_has NOFLAGS [CR CHR ''A'' CHR ''Z''] x = is_ascii_upper x"
  by (simp add: set_has_def NOFLAGS_def is_ascii_upper_def code_consts)

lemma lit_eq_NOFLAGS: "lit_eq NOFLAGS a x = (x = a)"
  by (simp add: lit_eq_def NOFLAGS_def)

lemma META_CONTROL_PATTERN_raw:
  "META_CONTROL_PATTERN =
     Seq WordB
      (Seq (Grp 1 (Seq (CSet [CR CHR ''A'' CHR ''Z'']) (CSet [CR CHR ''A'' CHR ''Z''])))
        (Seq (Lit CHR ''-'') (Seq (CSet [CD]) (Star (CSet [CD])))))"
  by (simp add: META_CONTROL_PATTERN_def plus_def D_def numeral_2_eq_2)

lemma meta_match_shape:
  assumes "match_here NOFLAGS META_CONTROL_PATTERN prev rest = Some (t, c)"
  shows "\<exists>u1 u2 d r. rest = u1 # u2 # CHR ''-'' # d # r \<and> is_ascii_upper u1 \<and> is_ascii_upper u2
           \<and> is_digit d \<and> \<not> word_opt prev"
proof -
  from match_here_sound[OF assms] obtain p1 r1 where
    s: "sem NOFLAGS META_CONTROL_PATTERN prev rest (\<lambda>n. None) t p1 r1 c" by blast
  from s show ?thesis
    unfolding META_CONTROL_PATTERN_raw
    by (auto elim!: sem_SeqE sem_GrpE sem_LitE sem_CSetE sem_WordBE
          simp: set_has_NOFLAGS_AZ set_has_CD lit_eq_NOFLAGS next_char_def word_opt_def
                upper_is_word)
qed

lemma alt_eps_total:
  "k [] prev rest c \<noteq> None \<Longrightarrow> m fl (Alt a Eps) prev rest c k \<noteq> None"
  by (simp split: option.splits)

lemma tail_total: "m IC TAIL_RX prev rest c (\<lambda>t p' r' c'. Some (F t c')) \<noteq> None"
  unfolding TAIL_RX_def PART_RX_def
  by (simp only: m.simps(6)) (intro alt_eps_total, simp)

lemma control_matches_at:
  assumes "\<not> word_opt prev" and "is_letter u1" and "is_letter u2" and "is_digit d"
  shows "match_here IC CONTROL_PATTERN prev (u1 # u2 # CHR ''-'' # d # r) \<noteq> None"
proof -
  from assms(2) have w: "is_word u1" by (auto simp: is_letter_def is_word_def)
  have t: "m IC TAIL_RX pv rs c (\<lambda>t p' r' c'. Some (F t c')) \<noteq> None"
    for pv rs c and F :: "string \<Rightarrow> caps \<Rightarrow> string \<times> caps"
    by (rule tail_total)
  have "m IC (Alt (Seq (CSet [CD]) Eps) Eps) (Some d) r c
          (\<lambda>t2 p2 r2 c2. m IC TAIL_RX p2 r2 (c2(2 \<mapsto> d # t2))
              (\<lambda>t3 p3 r3 c3. Some (u1 # u2 # CHR ''-'' # d # t2 @ t3, c3))) \<noteq> None" for c
    by (rule alt_eps_total) (rule t)
  with assms w show ?thesis
    by (simp add: match_here_def CONTROL_PATTERN_tail word_opt_def next_char_def
          set_has_IC_AZ lit_eq_punct set_has_CD del: m.simps(7))
qed

section \<open>One record for each match of the control pattern\<close>

lemma concat_results_all2:
  "(\<And>x. x \<in> set xs \<Longrightarrow> \<exists>ys. f x = Inr ys \<and> list_all2 P ys (g x)) \<Longrightarrow>
   \<exists>zs. concat_results f xs = Inr zs \<and> list_all2 P zs (concat (map g xs))"
proof (induction xs)
  case Nil
  show ?case by simp
next
  case (Cons x xs)
  from Cons.prems[of x] obtain ys where ys: "f x = Inr ys" "list_all2 P ys (g x)" by auto
  from Cons obtain zs where zs: "concat_results f xs = Inr zs"
    "list_all2 P zs (concat (map g xs))" by auto
  from ys(2) zs(2) have "list_all2 P (ys @ zs) (g x @ concat (map g xs))"
    by (rule list_all2_appendI)
  with ys(1) zs(1) show ?case by simp
qed

lemma map_snd_enumerate1: "map snd (enumerate1 xs) = xs"
proof -
  have "length [1 ..< Suc (length xs)] = Suc (length xs) - 1" by (simp only: length_upt)
  then have "length [1 ..< Suc (length xs)] = length xs" by (simp only: diff_Suc_1)
  then show ?thesis unfolding enumerate1_def by (rule map_snd_zip)
qed

lemma control_reference_rows:
  "\<exists>rs. extract_controls_from_file fp tool = Inr rs
        \<and> list_all2 (\<lambda>r mt. control_ref_of mt r) rs (control_matches fp)"
proof (cases "f_content fp")
  case None
  then show ?thesis by (simp add: extract_controls_from_file_def control_matches_def)
next
  case (Some content)
  let ?P = "\<lambda>r mt. control_ref_of mt r"
  let ?inner = "\<lambda>line_num ln mt. case control_of_match fp tool line_num ln mt of
                         Inl e \<Rightarrow> Inl e
                       | Inr r \<Rightarrow> Inr [r]"
  let ?outer = "\<lambda>(line_num, ln). concat_results (?inner line_num ln) (finditer IC CONTROL_PATTERN ln)"
  have inner: "\<exists>ys. ?inner n ln mt = Inr ys \<and> list_all2 ?P ys [mt]"
    if "mt \<in> set (finditer IC CONTROL_PATTERN ln)" for n ln mt
    using control_of_match_ok[OF that, of fp tool n] by auto
  have outer: "\<exists>ys. ?outer p = Inr ys \<and> list_all2 ?P ys (finditer IC CONTROL_PATTERN (snd p))" for p
  proof -
    obtain n ln where p: "p = (n, ln)" by (cases p)
    have "\<exists>zs. concat_results (?inner n ln) (finditer IC CONTROL_PATTERN ln) = Inr zs
            \<and> list_all2 ?P zs (concat (map (\<lambda>mt. [mt]) (finditer IC CONTROL_PATTERN ln)))"
      by (rule concat_results_all2) (use inner in blast)
    with p show ?thesis by simp
  qed
  have "\<exists>rs. concat_results ?outer (enumerate1 (split_nl content)) = Inr rs
          \<and> list_all2 ?P rs
               (concat (map (\<lambda>p. finditer IC CONTROL_PATTERN (snd p)) (enumerate1 (split_nl content))))"
    by (rule concat_results_all2) (rule outer)
  moreover have
    "concat (map (\<lambda>p. finditer IC CONTROL_PATTERN (snd p)) (enumerate1 (split_nl content)))
     = concat (map (finditer IC CONTROL_PATTERN) (split_nl content))"
  proof -
    have "map (\<lambda>p. finditer IC CONTROL_PATTERN (snd p)) (enumerate1 (split_nl content))
          = map (finditer IC CONTROL_PATTERN) (map snd (enumerate1 (split_nl content)))"
      by simp
    then show ?thesis by (simp only: map_snd_enumerate1)
  qed
  ultimately show ?thesis using Some
    by (simp add: extract_controls_from_file_def control_matches_def)
qed


section \<open>Consensus of the backends\<close>

lemma card_TOOLS: "card {''pandoc'', ''markitdown'', ''docling''} = 3"
  by simp

text \<open>
  Claim C1. For every directory tree, the run of extract-controls.py returns, and a
  control identifier is in \<open>controls_found_by_all_tools\<close> if and only if the set of the
  backend labels of the records with that identifier is the set of the three configured
  backends. The code tests that this set has three elements; the labels of the records
  are those of the loop over the three backends, so the two agree.
\<close>

theorem consensus_iff_all_tools:
  "\<exists>out. controls_main tr = Inr out
     \<and> (\<forall>cid. cid \<in> set (controls_found_by_all_tools (summary out)) \<longleftrightarrow>
               conversion_tool ` {c \<in> set (controls out). control_id c = cid}
                 = {''pandoc'', ''markitdown'', ''docling''})"
proof -
  from all_controls_ok[of tr] obtain cs where
    cs: "all_controls_of tr = Inr cs" and
    tools: "\<forall>c\<in>set cs. conversion_tool c \<in> set TOOLS" by blast
  let ?T = "{''pandoc'', ''markitdown'', ''docling''}"
  have "cid \<in> set (controls_found_by_all_tools (controls_summary_of cs)) \<longleftrightarrow>
        conversion_tool ` {c \<in> set cs. control_id c = cid} = ?T" for cid
  proof -
    let ?S = "conversion_tool ` {c \<in> set cs. control_id c = cid}"
    from tools have sub: "?S \<subseteq> ?T" by (auto simp: TOOLS_def)
    have "card ?S = 3 \<longleftrightarrow> ?S = ?T"
    proof
      assume "card ?S = 3"
      with sub show "?S = ?T" by (intro card_subset_eq) (simp_all only: card_TOOLS, simp)
    next
      assume "?S = ?T"
      then show "card ?S = 3" by (simp only: card_TOOLS)
    qed
    then show ?thesis by (simp only: consensus_mem)
  qed
  with cs show ?thesis by (simp add: controls_main_def)
qed

theorem consensus_iff_all_tools_witness:
  "\<exists>out. controls_main consensus_tree = Inr out
     \<and> controls_found_by_all_tools (summary out) = [''AC-2'']
     \<and> conversion_tool ` {c \<in> set (controls out). control_id c = ''AC-2''}
          = {''pandoc'', ''markitdown'', ''docling''}
     \<and> conversion_tool ` {c \<in> set (controls out). control_id c = ''SC-7.a''}
          \<noteq> {''pandoc'', ''markitdown'', ''docling''}"
proof -
  from consensus_iff_all_tools[of consensus_tree] obtain out where
    out: "controls_main consensus_tree = Inr out" and
    iff: "\<And>cid. cid \<in> set (controls_found_by_all_tools (summary out)) \<longleftrightarrow>
               conversion_tool ` {c \<in> set (controls out). control_id c = cid}
                 = {''pandoc'', ''markitdown'', ''docling''}" by blast
  have "map_sum id (\<lambda>out. controls_found_by_all_tools (summary out)) (controls_main consensus_tree)
        = Inr [''AC-2'']" by code_simp
  with out have l: "controls_found_by_all_tools (summary out) = [''AC-2'']" by simp
  from iff[of "''AC-2''"] iff[of "''SC-7.a''"] l out show ?thesis by simp
qed

section \<open>The structural invariant of control references\<close>

text \<open>
  Claim C8. The extraction of control references from a file always returns, with
  exactly one record per match of the control pattern, in the order of the matches, and
  each record is related to its match by \<open>control_ref_of\<close>: the family is the matched
  family upper-cased, the base control is the family, a hyphen and the matched number,
  the enhancement flag holds exactly when there is an enhancement number, which is the
  matched one, and the identifier is the base control followed by the parenthesized
  enhancement number exactly when one was matched and by a dot and the lower-cased part
  exactly when a part was matched. The statement asks nothing of the characters
  themselves.
\<close>

theorem control_reference_invariant:
  "\<exists>rs. extract_controls_from_file fp tool = Inr rs
        \<and> list_all2 (\<lambda>r mt. control_ref_of mt r) rs (control_matches fp)"
  by (rule control_reference_rows)

theorem control_reference_invariant_witness:
  "\<exists>rs. extract_controls_from_file
          (example_file ''pandoc'' ''a.md'' (Some mixed_case_text)) ''pandoc'' = Inr rs
        \<and> map (\<lambda>mt. (m_groups mt 1, m_groups mt 2, m_groups mt 3, m_groups mt 4))
              (control_matches (example_file ''pandoc'' ''a.md'' (Some mixed_case_text)))
            = [(Some ''ac'', Some ''2'', Some ''1'', Some ''B''),
               (Some ''SC'', Some ''7'', None, None)]
        \<and> map (\<lambda>r. (control_id r, control_family r, base_control r, has_enhancement r,
                      enhancement_number r)) rs
            = [(''AC-2(1).b'', ''AC'', ''AC-2'', True, Some ''1''),
               (''SC-7'', ''SC'', ''SC-7'', False, None)]
        \<and> list_all2 (\<lambda>r mt. control_ref_of mt r) rs
              (control_matches (example_file ''pandoc'' ''a.md'' (Some mixed_case_text)))"
proof -
  let ?fp = "example_file ''pandoc'' ''a.md'' (Some mixed_case_text)"
  from control_reference_invariant[of ?fp "''pandoc''"] obtain rs where
    rs: "extract_controls_from_file ?fp ''pandoc'' = Inr rs" and
    ok: "list_all2 (\<lambda>r mt. control_ref_of mt r) rs (control_matches ?fp)"
    by blast
  have a: "map_sum id (map (\<lambda>r. (control_id r, control_family r, base_control r, has_enhancement r,
                      enhancement_number r)))
          (extract_controls_from_file ?fp ''pandoc'')
        = Inr [(''AC-2(1).b'', ''AC'', ''AC-2'', True, Some ''1''),
               (''SC-7'', ''SC'', ''SC-7'', False, None)]"
    by code_simp
  have b: "map (\<lambda>mt. (m_groups mt 1, m_groups mt 2, m_groups mt 3, m_groups mt 4))
              (control_matches ?fp)
            = [(Some ''ac'', Some ''2'', Some ''1'', Some ''B''),
               (Some ''SC'', Some ''7'', None, None)]"
    by code_simp
  from rs ok a b show ?thesis by simp
qed

section \<open>The dates of a document\<close>

text \<open>
  Claim C3. The source comments the inner loop with \<open>Limit to 5 dates\<close>, but its
  \<open>break\<close> leaves only the loop over the matches of one pattern: each later pattern
  still appends its first new date. The document \<open>seven_dates_text\<close> has seven distinct
  date literals, five of them ISO dates; the extractor returns all seven, not five.
\<close>

theorem dates_found_seven_entries:
  "map_option dates_found
     (meta_of (extract_metadata_from_file
                 (example_file ''pandoc'' ''a.md'' (Some seven_dates_text)) ''pandoc''))
   = Some [Some ''2024-01-01'', Some ''2024-02-02'', Some ''2024-03-03'', Some ''2024-04-04'',
           Some ''2024-05-05'', Some ''1/2/2024'', Some ''March 3, 2024'']"
  by code_simp

section \<open>The title of a document\<close>

lemma split_nl_no_newline: "ln \<in> set (split_nl s) \<Longrightarrow> NL \<notin> set ln"
proof (induction s arbitrary: ln)
  case Nil
  then show ?case by simp
next
  case (Cons x xs)
  show ?case
  proof (cases "x = NL")
    case True
    with Cons show ?thesis by auto
  next
    case False
    obtain l ls where sp: "split_nl xs = l # ls" by (cases "split_nl xs") (cases xs; simp split: if_splits list.splits)+
    with False have "split_nl (x # xs) = (x # l) # ls" by simp
    with Cons.prems have "ln = x # l \<or> ln \<in> set ls" by simp
    then show ?thesis
    proof
      assume "ln = x # l"
      moreover from sp Cons.IH[of l] have "NL \<notin> set l" by simp
      ultimately show ?thesis using False by simp
    next
      assume "ln \<in> set ls"
      with sp Cons.IH[of ln] show ?thesis by simp
    qed
  qed
qed

lemma underline_pattern_needs_newline:
  assumes "re_match MLINE (TITLE_PATTERNS ! 1) ln = Some mt"
  shows "NL \<in> set ln"
proof -
  from assms obtain t c where "match_here MLINE (TITLE_PATTERNS ! 1) None ln = Some (t, c)"
    by (auto simp: re_match_def split: option.splits)
  from match_here_sound[OF this] obtain p1 r1 where
    s: "sem MLINE (TITLE_PATTERNS ! 1) None ln (\<lambda>n. None) t p1 r1 c" by blast
  from sem_text[OF s] have ln: "ln = t @ r1" by simp
  from s have "NL \<in> set t"
    by (auto simp: TITLE_PATTERNS_def plus_def at_least_def numeral_3_eq_3 lit_eq_def MLINE_def
          elim!: sem_SeqE sem_GrpE sem_LitE sem_BolE)
  with ln show ?thesis by simp
qed

lemma underline_pattern_never_matches_a_line:
  "ln \<in> set (split_nl content) \<Longrightarrow> re_match MLINE (TITLE_PATTERNS ! 1) ln = None"
  using underline_pattern_needs_newline[of ln] split_nl_no_newline[of ln content]
  by (cases "re_match MLINE (TITLE_PATTERNS ! 1) ln") auto

text \<open>
  Claim C5. The second title pattern (\<open>Underline style H1\<close> in the source) starts with a line
  of text and needs a newline after it, but it is matched against single lines, which
  contain none (\<open>underline_pattern_never_matches_a_line\<close>). A document whose only
  heading is underline style gets no title.
\<close>

theorem underline_heading_gives_no_title:
  "map_option md_title
     (meta_of (extract_metadata_from_file
                 (example_file ''pandoc'' ''a.md'' (Some underline_text)) ''pandoc''))
   = Some None"
  by code_simp

section \<open>The unique values of an entity type\<close>



section \<open>The order of the keys of the summary maps\<close>

text \<open>
  Claim C4 says that every map of the three summaries is written with its keys in sorted
  order. It fails for \<open>by_tool\<close>: the keys are in the order in which the backends were
  processed.
\<close>

theorem summary_maps_not_all_sorted_counterexample:
  "\<exists>out. controls_main consensus_tree = Inr out
        \<and> map fst (by_tool (summary out)) = [''pandoc'', ''markitdown'', ''docling'']
        \<and> \<not> sorted (map fst (by_tool (summary out)))"
proof -
  have e: "map_sum id (\<lambda>out. map fst (by_tool (summary out))) (controls_main consensus_tree)
           = Inr [''pandoc'', ''markitdown'', ''docling'']"
    by code_simp
  then obtain out where out: "controls_main consensus_tree = Inr out"
    by (cases "controls_main consensus_tree") auto
  with e have k: "map fst (by_tool (summary out)) = [''pandoc'', ''markitdown'', ''docling'']"
    by simp
  have "\<not> sorted [''pandoc'', ''markitdown'', ''docling'']" by code_simp
  with out k show ?thesis by simp
qed

text \<open>
  Claim C4, as the code has it. Every run of each extractor returns. The maps that the
  code passes through \<open>sorted\<close>, \<open>by_family\<close> of the controls and \<open>by_type\<close> of the
  entities, have their keys in sorted order; the other maps, \<open>by_tool\<close> and
  \<open>by_document\<close> of the controls, \<open>unique_values_by_type\<close> of the entities and
  \<open>by_type\<close> of the metadata, have their keys in the order of first occurrence among
  the records.
\<close>

theorem summary_maps_order:
  "(\<exists>out. controls_main tr = Inr out
      \<and> sorted (map fst (by_family (summary out)))
      \<and> map fst (by_tool (summary out)) = first_seen (map conversion_tool (controls out))
      \<and> map fst (by_document (summary out)) = first_seen (map source_document (controls out)))
   \<and> (\<exists>out. entities_main tr = Inr out
      \<and> sorted (map fst (e_by_type (e_summary out)))
      \<and> map fst (unique_values_by_type (e_summary out))
          = first_seen (map entity_type (entities out)))
   \<and> (\<exists>out. metadata_main tr = Inr out
      \<and> map fst (md_by_type (md_summary out)) = first_seen (map result_type (documents out)))"
proof -
  from all_controls_ok[of tr] obtain cs where "all_controls_of tr = Inr cs" by blast
  then have a: "\<exists>out. controls_main tr = Inr out
      \<and> sorted (map fst (by_family (summary out)))
      \<and> map fst (by_tool (summary out)) = first_seen (map conversion_tool (controls out))
      \<and> map fst (by_document (summary out)) = first_seen (map source_document (controls out))"
    using controls_summary_order[of cs] by (simp add: controls_main_def)
  from all_entities_total[of tr] obtain es where "all_entities_of tr = Inr es" by blast
  then have b: "\<exists>out. entities_main tr = Inr out
      \<and> sorted (map fst (e_by_type (e_summary out)))
      \<and> map fst (unique_values_by_type (e_summary out))
          = first_seen (map entity_type (entities out))"
    using entities_summary_order[of es] by (simp add: entities_main_def)
  from all_metadata_total[of tr] obtain ms where "all_metadata_of tr = Inr ms" by blast
  then have c: "\<exists>out. metadata_main tr = Inr out
      \<and> map fst (md_by_type (md_summary out)) = first_seen (map result_type (documents out))"
    using metadata_summary_order[of ms] by (simp add: metadata_main_def)
  from a b c show ?thesis by blast
qed

theorem summary_maps_order_witness:
  "\<exists>out. controls_main consensus_tree = Inr out
      \<and> map fst (by_family (summary out)) = [''AC'', ''SC'']
      \<and> sorted (map fst (by_family (summary out)))
      \<and> map fst (by_tool (summary out)) = [''pandoc'', ''markitdown'', ''docling'']
      \<and> first_seen (map conversion_tool (controls out)) = [''pandoc'', ''markitdown'', ''docling'']"
proof -
  from summary_maps_order[of consensus_tree] obtain out where
    out: "controls_main consensus_tree = Inr out" and
    s: "sorted (map fst (by_family (summary out)))" and
    t: "map fst (by_tool (summary out)) = first_seen (map conversion_tool (controls out))"
    by blast
  have e: "map_sum id (\<lambda>out. (map fst (by_family (summary out)), map fst (by_tool (summary out))))
             (controls_main consensus_tree)
           = Inr ([''AC'', ''SC''], [''pandoc'', ''markitdown'', ''docling''])"
    by code_simp
  from out s t e show ?thesis by simp
qed

section \<open>Files that cannot be read\<close>




section \<open>Round trip of a canonical control identifier\<close>

text \<open>
  Claim C6. For a file whose content is a canonical control identifier
  \<open>FF-N[(E)][.p]\<close>, the control extractor returns exactly one record; its identifier is
  the input (round trip), its family is \<open>FF\<close>, its base control is \<open>FF-N\<close>, its
  enhancement flag says whether \<open>(E)\<close> is there and its enhancement number is \<open>E\<close>.
  The record of the source has no field of its own for the part: the part is what the
  identifier has after the base control and the enhancement, which the last conjunct
  states.
\<close>

theorem canonical_control_round_trip:
  assumes "canonical_parts f1 f2 num e p"
    and "f_content fp = Some (canonical_id f1 f2 num e p)"
  shows "\<exists>r. extract_controls_from_file fp tool = Inr [r]
     \<and> control_id r = canonical_id f1 f2 num e p
     \<and> control_family r = [f1, f2]
     \<and> base_control r = [f1, f2] @ ''-'' @ num
     \<and> has_enhancement r = (e \<noteq> None)
     \<and> enhancement_number r = e
     \<and> control_id r = base_control r @ enh_text (enhancement_number r) @ part_str p"
proof -
  from assms(1) have f: "is_ascii_upper f1" "is_ascii_upper f2"
    and e: "case e of None \<Rightarrow> True | Some ds \<Rightarrow> ds \<noteq> [] \<and> list_all is_digit ds"
    and p: "case p of None \<Rightarrow> True | Some x \<Rightarrow> is_ascii_lower x"
    by (simp_all add: canonical_parts_def)
  let ?s = "canonical_id f1 f2 num e p"
  let ?mt = "\<lparr>m_start = 0, m_text = ?s,
             m_groups = tail_groups e p ((\<lambda>n. None)(1 \<mapsto> [f1, f2], 2 \<mapsto> num))\<rparr>"
  have lines: "enumerate1 (split_nl ?s) = [(1, ?s)]"
    using split_nl_single[OF canonical_no_newline[OF assms(1)]] by (simp add: enumerate1_def)
  have g: "m_groups ?mt 1 = Some [f1, f2]" "m_groups ?mt 2 = Some num"
    "m_groups ?mt 3 = e" "m_groups ?mt 4 = map_option (\<lambda>x. [x]) p"
    by (cases e; cases p; simp add: tail_groups_def)+
  obtain r where r: "control_of_match fp tool 1 ?s ?mt = Inr r" and
    rf: "control_family r = [f1, f2]" "base_control r = [f1, f2] @ ''-'' @ num"
        "has_enhancement r = (e \<noteq> None)" "enhancement_number r = e"
        "control_id r = [f1, f2] @ ''-'' @ num @ enh_text e @ part_str p"
    using f e p g
    by (cases e; cases p)
       (simp_all add: control_of_match_def Let_def py_format_def truthy_def upper_def lower_def
          upper_of_upper lower_of_lower enh_text_def part_str_def)
  from r lines have "extract_controls_from_file fp tool = Inr [r]"
    using assms(2) finditer_canonical[OF assms(1)]
    by (simp add: extract_controls_from_file_def)
  with rf show ?thesis by (simp add: canonical_id_def)
qed

theorem canonical_control_round_trip_witness:
  "canonical_parts CHR ''S'' CHR ''C'' ''7'' (Some ''12'') (Some CHR ''a'')
   \<and> canonical_id CHR ''S'' CHR ''C'' ''7'' (Some ''12'') (Some CHR ''a'') = ''SC-7(12).a''
   \<and> (\<exists>r. extract_controls_from_file (example_file ''pandoc'' ''a.md'' (Some ''SC-7(12).a''))
              ''pandoc'' = Inr [r]
         \<and> control_id r = ''SC-7(12).a''
         \<and> control_family r = ''SC''
         \<and> base_control r = ''SC-7''
         \<and> has_enhancement r
         \<and> enhancement_number r = Some ''12'')"
proof -
  have c: "canonical_parts CHR ''S'' CHR ''C'' ''7'' (Some ''12'') (Some CHR ''a'')"
    by (simp add: canonical_parts_def is_ascii_upper_def is_ascii_lower_def is_digit_def code_def)
  have i: "canonical_id CHR ''S'' CHR ''C'' ''7'' (Some ''12'') (Some CHR ''a'') = ''SC-7(12).a''"
    by (simp add: canonical_id_def enh_text_def part_str_def)
  have fc: "f_content (example_file ''pandoc'' ''a.md'' (Some ''SC-7(12).a''))
        = Some (canonical_id CHR ''S'' CHR ''C'' ''7'' (Some ''12'') (Some CHR ''a''))"
    by (simp add: example_file_def i)
  from canonical_control_round_trip[OF c fc, of "''pandoc''"] c i show ?thesis by auto
qed

end
